theory Spec2Isabelle
  imports Main
begin

section \<open>Go values: errors and run-time faults\<close>

text \<open>
  A Go \<^verbatim>\<open>string\<close> and a \<^verbatim>\<open>[]byte\<close> are sequences of bytes; both are modelled as
  \<^typ>\<open>string\<close> (a list of 8-bit \<^typ>\<open>char\<close>).  An \<^verbatim>\<open>error\<close> value is a value of
  the datatype \<open>error\<close> (\<open>None\<close> of \<open>error option\<close> is \<^verbatim>\<open>nil\<close>); a run-time panic is a
  value of \<open>fault\<close>, and a function that can panic returns \<open>fault + 'a\<close>.
\<close>

record ScanResult =
  Raw :: string
  Description :: string
  Path :: string
  Hash :: string
  Size :: int
  Status :: string

datatype error = EOF | ErrSyntax string | ErrRange string | UrlError string string string
  | NetError string | InvalidResponse ScanResult

datatype fault = IndexOutOfRange nat nat | SliceBoundsOutOfRange nat nat | NilDereference

section \<open>The regular expressions of \<^verbatim>\<open>regexp\<close> that \<^verbatim>\<open>resultRegex\<close> uses\<close>

text \<open>
  Go's \<^verbatim>\<open>regexp\<close> returns the leftmost match, and among the matches that start there the
  one a backtracking search finds first.  \<open>run\<close> lists the ways an expression matches a
  prefix of the remaining input in exactly that order of preference: a greedy \<^verbatim>\<open>+\<close> tries
  the longest repetition first, a greedy \<^verbatim>\<open>?\<close> tries its body before the empty match,
  an alternation its left branch first.  The fragment has what the pattern of conn.go
  needs: anchors, literals, a repeated single-character class and capture groups.

  A negated class \<^verbatim>\<open>[^:]\<close> matches every character but the colon, newline included, and an
  invalid UTF-8 byte counts as one character; the colon is ASCII, so on bytes the class is
  ``any byte but \<open>:\<close>''.  \<^verbatim>\<open>\d\<close> is the ASCII digits.
\<close>

definition isDigit :: "char \<Rightarrow> bool" where
  "isDigit x = (x \<in> set ''0123456789'')"

datatype cclass = NotChr char | Digit

fun accepts :: "cclass \<Rightarrow> char \<Rightarrow> bool" where
  "accepts (NotChr c) x = (x \<noteq> c)"
| "accepts Digit x = isDigit x"

datatype regex = Bol | Eol | Str string | Plus cclass
  | Seq regex regex | Alt regex regex | Opt regex | Group nat string regex

type_synonym caps = "nat \<Rightarrow> string option"

fun run :: "string \<Rightarrow> regex \<Rightarrow> string \<Rightarrow> caps \<Rightarrow> (string \<times> caps) list" where
  "run line Bol s c = (if length s = length line then [(s, c)] else [])"
| "run line Eol s c = (if s = [] then [(s, c)] else [])"
| "run line (Str w) s c = (if take (length w) s = w then [(drop (length w) s, c)] else [])"
| "run line (Plus k) s c =
     map (\<lambda>n. (drop n s, c)) (rev [1..<Suc (length (takeWhile (accepts k) s))])"
| "run line (Seq a b) s c = concat (map (\<lambda>(s', c'). run line b s' c') (run line a s c))"
| "run line (Alt a b) s c = run line a s c @ run line b s c"
| "run line (Opt a) s c = run line a s c @ [(s, c)]"
| "run line (Group i nm a) s c =
     map (\<lambda>(s', c'). (s', c'(i \<mapsto> take (length s - length s') s))) (run line a s c)"

fun names :: "regex \<Rightarrow> string list" where
  "names (Group i nm a) = nm # names a"
| "names (Seq a b) = names a @ names b"
| "names (Alt a b) = names a @ names b"
| "names (Opt a) = names a"
| "names r = []"

definition SubexpNames :: "regex \<Rightarrow> string list" where
  "SubexpNames r = [] # names r"

definition all_matches :: "regex \<Rightarrow> string \<Rightarrow> caps list" where
  "all_matches r line =
     concat (map (\<lambda>i. map (\<lambda>(s', c). c(0 \<mapsto> take (length line - i - length s') (drop i line)))
                          (run line r (drop i line) Map.empty))
                 [0..<Suc (length line)])"

text \<open>
  \<^verbatim>\<open>FindStringSubmatch\<close> returns nil (the empty slice) when nothing matches, and otherwise
  one string per group, group 0 being the whole match; a group that took no part in the
  match is the empty string.
\<close>

definition FindStringSubmatch :: "regex \<Rightarrow> string \<Rightarrow> string list" where
  "FindStringSubmatch r line =
     (case all_matches r line of
        [] \<Rightarrow> []
      | c # _ \<Rightarrow> map (\<lambda>i. case c i of None \<Rightarrow> [] | Some w \<Rightarrow> w) [0..<length (SubexpNames r)])"

text \<open>
  \<^verbatim>\<open>^(?P<path>[^:]+): ((?P<desc>[^:]+)(\((?P<virhash>([^:]+)):(?P<virsize>\d+)\))? )?(?P<status>FOUND|ERROR|OK)$\<close>
  with the groups numbered by their opening parenthesis.
\<close>

definition sigGroup :: regex where
  "sigGroup =
     Group 4 []
       (Seq (Str ''('')
       (Seq (Group 5 ''virhash'' (Group 6 [] (Plus (NotChr CHR '':''))))
       (Seq (Str '':'')
       (Seq (Group 7 ''virsize'' (Plus Digit))
            (Str '')'')))))"

definition descGroup :: regex where
  "descGroup =
     Group 2 []
       (Seq (Group 3 ''desc'' (Plus (NotChr CHR '':'')))
       (Seq (Opt sigGroup)
            (Str '' '')))"

definition statusGroup :: regex where
  "statusGroup = Group 8 ''status'' (Alt (Str ''FOUND'') (Alt (Str ''ERROR'') (Str ''OK'')))"

definition resultRegex :: regex where
  "resultRegex =
     Seq Bol
    (Seq (Group 1 ''path'' (Plus (NotChr CHR '':'')))
    (Seq (Str '': '')
    (Seq (Opt descGroup)
    (Seq statusGroup
         Eol))))"

section \<open>\<^verbatim>\<open>strconv.Atoi\<close>\<close>

text \<open>
  \<^verbatim>\<open>Atoi\<close> reads an optional sign and decimal digits.  Anything else is a syntax error, and
  a value that does not fit \<^verbatim>\<open>int\<close> is a range error.  \<^verbatim>\<open>int\<close> is taken to have 64
  bits, as on the platforms the daemon runs on: \<open>maxInt\<close> is \<open>2^63 - 1\<close>.
\<close>

definition maxInt :: int where
  "maxInt = 9223372036854775807"

definition digitVal :: "char \<Rightarrow> int" where
  "digitVal x = of_char x - 48"

definition decimal :: "string \<Rightarrow> int" where
  "decimal s = foldl (\<lambda>n x. n * 10 + digitVal x) 0 s"

definition Atoi :: "string \<Rightarrow> error + int" where
  "Atoi s =
     (let neg = (take 1 s = ''-'');
          ds = (if take 1 s = ''-'' \<or> take 1 s = ''+'' then drop 1 s else s)
      in if ds = [] \<or> \<not> list_all isDigit ds then Inl (ErrSyntax s)
         else if neg then
           (if decimal ds \<le> maxInt + 1 then Inr (- decimal ds) else Inl (ErrRange s))
         else
           (if decimal ds \<le> maxInt then Inr (decimal ds) else Inl (ErrRange s)))"

section \<open>Scan results and \<^verbatim>\<open>parseResult\<close>\<close>

definition RES_OK :: string where "RES_OK = ''OK''"
definition RES_FOUND :: string where "RES_FOUND = ''FOUND''"
definition RES_ERROR :: string where "RES_ERROR = ''ERROR''"
definition RES_PARSE_ERROR :: string where "RES_PARSE_ERROR = ''PARSE ERROR''"

definition emptyResult :: ScanResult where
  "emptyResult = \<lparr>Raw = [], Description = [], Path = [], Hash = [], Size = 0, Status = []\<rparr>"

text \<open>\<^verbatim>\<open>matches[i]\<close>: an index outside the slice panics.\<close>

definition index :: "'a list \<Rightarrow> nat \<Rightarrow> fault + 'a" where
  "index xs i = (if i < length xs then Inr (xs ! i) else Inl (IndexOutOfRange i (length xs)))"

text \<open>
  The loop \<^verbatim>\<open>for i, name := range resultRegex.SubexpNames()\<close>, over the pairs of index
  and name that are left.  The inner \<^verbatim>\<open>switch\<close> has three empty cases for the three
  status words (Go does not fall through) and returns early from its default case.
\<close>

fun parseResult_loop :: "(nat \<times> string) list \<Rightarrow> string list \<Rightarrow> ScanResult \<Rightarrow> fault + ScanResult" where
  "parseResult_loop [] matches res = Inr res"
| "parseResult_loop ((i, name) # rest) matches res =
     (if name = ''path'' then
        (case index matches i of Inl f \<Rightarrow> Inl f
         | Inr v \<Rightarrow> parseResult_loop rest matches (res\<lparr>Path := v\<rparr>))
      else if name = ''desc'' then
        (case index matches i of Inl f \<Rightarrow> Inl f
         | Inr v \<Rightarrow> parseResult_loop rest matches (res\<lparr>Description := v\<rparr>))
      else if name = ''virhash'' then
        (case index matches i of Inl f \<Rightarrow> Inl f
         | Inr v \<Rightarrow> parseResult_loop rest matches (res\<lparr>Hash := v\<rparr>))
      else if name = ''virsize'' then
        (case index matches i of Inl f \<Rightarrow> Inl f
         | Inr v \<Rightarrow>
            (case Atoi v of
               Inr n \<Rightarrow> parseResult_loop rest matches (res\<lparr>Size := n\<rparr>)
             | Inl err \<Rightarrow> parseResult_loop rest matches res))
      else if name = ''status'' then
        (case index matches i of Inl f \<Rightarrow> Inl f
         | Inr v \<Rightarrow>
            if v = RES_OK \<or> v = RES_FOUND \<or> v = RES_ERROR
            then parseResult_loop rest matches (res\<lparr>Status := v\<rparr>)
            else Inr (res\<lparr>Description := ''Invalid status field: '' @ v,
                           Status := RES_PARSE_ERROR\<rparr>))
      else parseResult_loop rest matches res)"

definition parseResult :: "string \<Rightarrow> fault + ScanResult" where
  "parseResult line =
     (let res = emptyResult\<lparr>Raw := line\<rparr>;
          matches = FindStringSubmatch resultRegex line
      in if length matches = 0
         then Inr (res\<lparr>Description := ''Regex had no matches'', Status := RES_PARSE_ERROR\<rparr>)
         else parseResult_loop (enumerate 0 (SubexpNames resultRegex)) matches res)"

section \<open>The response grammar, spelled out\<close>

datatype body = NoDesc | Desc string | DescSig string string string

definition sigText :: "string \<Rightarrow> string \<Rightarrow> string" where
  "sigText h z = ''('' @ h @ '':'' @ z @ '')''"

fun bodyText :: "body \<Rightarrow> string" where
  "bodyText NoDesc = []"
| "bodyText (Desc d) = d @ '' ''"
| "bodyText (DescSig d h z) = d @ sigText h z @ '' ''"

fun wf_body :: "body \<Rightarrow> bool" where
  "wf_body NoDesc = True"
| "wf_body (Desc d) = (d \<noteq> [] \<and> CHR '':'' \<notin> set d)"
| "wf_body (DescSig d h z) =
     (d \<noteq> [] \<and> CHR '':'' \<notin> set d \<and> h \<noteq> [] \<and> CHR '':'' \<notin> set h \<and> z \<noteq> [] \<and> list_all isDigit z)"

fun bodyCaps :: "body \<Rightarrow> caps \<Rightarrow> caps" where
  "bodyCaps NoDesc c = c"
| "bodyCaps (Desc d) c = c(3 \<mapsto> d, 2 \<mapsto> d @ '' '')"
| "bodyCaps (DescSig d h z) c =
     c(3 \<mapsto> d, 6 \<mapsto> h, 5 \<mapsto> h, 7 \<mapsto> z, 4 \<mapsto> sigText h z, 2 \<mapsto> d @ sigText h z @ '' '')"


definition statuses :: "string set" where
  "statuses = {RES_FOUND, RES_ERROR, RES_OK}"

definition render :: "string \<Rightarrow> body \<Rightarrow> string \<Rightarrow> string" where
  "render p b st = p @ '': '' @ bodyText b @ st"

definition wf_line :: "string \<Rightarrow> body \<Rightarrow> string \<Rightarrow> bool" where
  "wf_line p b st = (p \<noteq> [] \<and> CHR '':'' \<notin> set p \<and> wf_body b \<and> st \<in> statuses)"

definition lineCaps :: "string \<Rightarrow> body \<Rightarrow> string \<Rightarrow> caps" where
  "lineCaps p b st = (bodyCaps b (Map.empty(1 \<mapsto> p)))(8 \<mapsto> st)"

fun descOf :: "body \<Rightarrow> string" where
  "descOf NoDesc = []"
| "descOf (Desc d) = d"
| "descOf (DescSig d h z) = d"

fun sigOf :: "body \<Rightarrow> string" where
  "sigOf (DescSig d h z) = sigText h z"
| "sigOf b = []"

fun hashOf :: "body \<Rightarrow> string" where
  "hashOf (DescSig d h z) = h"
| "hashOf b = []"

fun sizeOf :: "body \<Rightarrow> string" where
  "sizeOf (DescSig d h z) = z"
| "sizeOf b = []"

definition submatches :: "string \<Rightarrow> body \<Rightarrow> string \<Rightarrow> string list" where
  "submatches p b st =
     [render p b st, p, bodyText b, descOf b, sigOf b, hashOf b, hashOf b, sizeOf b, st]"

text \<open>The size a line of the grammar carries: the number in its signature group when
  \<^verbatim>\<open>Atoi\<close> accepts it, zero otherwise.\<close>

definition sizeVal :: "body \<Rightarrow> int" where
  "sizeVal b = (case Atoi (sizeOf b) of Inr n \<Rightarrow> n | Inl err \<Rightarrow> 0)"

text \<open>
  Two readings of one line can differ only in where the description ends and the signature
  name starts (both may contain parentheses); \<open>sameBody\<close> is that relation.
\<close>

fun sameBody :: "body \<Rightarrow> body \<Rightarrow> bool" where
  "sameBody (DescSig d h z) (DescSig d' h' z') = (z' = z \<and> d' @ ''('' @ h' = d @ ''('' @ h)"
| "sameBody NoDesc NoDesc = True"
| "sameBody (Desc d) (Desc d') = (d' = d)"
| "sameBody b b' = False"

section \<open>Connections\<close>

text \<open>
  A connection is seen from the client's side.  \<open>writes\<close> is the log of the byte strings
  handed to \<^verbatim>\<open>Write\<close> so far, oldest first; \<open>faults\<close> are the results of the \<^verbatim>\<open>Write\<close>
  calls to come (\<open>None\<close> is success, and so is every call after the list is used up);
  \<open>incoming\<close> is everything the daemon sends before the read side ends with EOF or an
  error.  Closing the connection from the cancellation goroutine of \<^verbatim>\<open>ScanStream\<close> shows
  up as failing writes and as the end of \<open>incoming\<close>.
\<close>

record CLAMDConn =
  writes :: "string list"
  faults :: "error option list"
  incoming :: string

definition CHUNK_SIZE :: nat where
  "CHUNK_SIZE = 1024"

definition Write :: "CLAMDConn \<Rightarrow> string \<Rightarrow> CLAMDConn \<times> error option" where
  "Write conn b =
     (conn\<lparr>writes := writes conn @ [b], faults := tl (faults conn)\<rparr>,
      case faults conn of [] \<Rightarrow> None | f # _ \<Rightarrow> f)"

definition sendCommand :: "CLAMDConn \<Rightarrow> string \<Rightarrow> CLAMDConn \<times> error option" where
  "sendCommand conn command = Write conn (''n'' @ command @ [CHR 0x0A])"

definition sendEOF :: "CLAMDConn \<Rightarrow> CLAMDConn \<times> error option" where
  "sendEOF conn = Write conn [CHR 0x00, CHR 0x00, CHR 0x00, CHR 0x00]"

text \<open>\<^verbatim>\<open>byte(x)\<close> keeps the low eight bits of an \<^verbatim>\<open>int\<close>; \<^verbatim>\<open>x >> k\<close> is \<open>drop_bit k\<close>.\<close>

definition byte :: "int \<Rightarrow> char" where
  "byte x = char_of x"

text \<open>
  \<^verbatim>\<open>sendChunk\<close> fills the four-byte header, copies it into a slice index by index, writes
  the slice without looking at the result of that \<^verbatim>\<open>Write\<close>, and returns the error of
  the second \<^verbatim>\<open>Write\<close>, that of the data.
\<close>

definition sendChunk :: "CLAMDConn \<Rightarrow> string \<Rightarrow> CLAMDConn \<times> error option" where
  "sendChunk conn data =
     (let lenData = int (length data);
          buf = [byte (drop_bit 24 lenData), byte (drop_bit 16 lenData),
                 byte (drop_bit 8 lenData), byte (drop_bit 0 lenData)];
          b = map (\<lambda>i. buf ! i) [0..<length buf];
          (conn1, _) = Write conn b
      in Write conn1 data)"

subsection \<open>Reading the response\<close>

definition TrimRight :: "string \<Rightarrow> string \<Rightarrow> string" where
  "TrimRight s cutset = rev (dropWhile (\<lambda>x. x \<in> set cutset) (rev s))"

definition Trim :: "string \<Rightarrow> string \<Rightarrow> string" where
  "Trim s cutset = TrimRight (dropWhile (\<lambda>x. x \<in> set cutset) s) cutset"

definition HasPrefix :: "string \<Rightarrow> string \<Rightarrow> bool" where
  "HasPrefix s prefix = (length prefix \<le> length s \<and> take (length prefix) s = prefix)"

text \<open>
  The channel of \<^verbatim>\<open>readResponse\<close> is modelled by the list of the records it delivers
  before it is closed.  The goroutine reads up to each newline; when the input ends, with
  EOF or an error, it returns and the deferred call closes the channel, so what follows
  the last newline is dropped.
\<close>

type_synonym chan = "ScanResult list"

function readLoop :: "string \<Rightarrow> fault + chan" where
  "readLoop s =
     (if CHR 0x0A \<notin> set s then Inr []
      else
        (let line = takeWhile (\<lambda>x. x \<noteq> CHR 0x0A) s @ [CHR 0x0A];
             rest = drop (length line) s
         in case parseResult (TrimRight line [CHR '' '', CHR 0x09, CHR 0x0D, CHR 0x0A]) of
              Inl f \<Rightarrow> Inl f
            | Inr r \<Rightarrow> (case readLoop rest of Inl f \<Rightarrow> Inl f | Inr rs \<Rightarrow> Inr (r # rs))))"
  by pat_completeness auto
termination
  by (relation "measure length") (auto intro!: diff_less length_pos_if_in_set)

definition readResponse :: "CLAMDConn \<Rightarrow> fault + chan" where
  "readResponse c = readLoop (incoming c)"

section \<open>The transport resolver\<close>

text \<open>
  \<^verbatim>\<open>url.Parse\<close> cuts the fragment off at the first \<^verbatim>\<open>#\<close>, refuses a control byte, and
  splits the scheme off with \<^verbatim>\<open>getScheme\<close>, which fails on a leading colon.  What it does
  with the rest (query, authority, path and fragment, each with its own failures) is the
  parameter \<open>url_parseRest\<close> of the environment, given the scheme in lower case, the rest
  and the fragment.  \<open>net_Dial\<close> is the network: what dialling an address over \<^verbatim>\<open>tcp\<close>
  or \<^verbatim>\<open>unix\<close> gives.
\<close>

record URL =
  Scheme :: string
  Host :: string
  url_Path :: string

record env =
  url_parseRest :: "string \<Rightarrow> string \<Rightarrow> string \<Rightarrow> error + URL"
  net_Dial :: "string \<Rightarrow> string \<Rightarrow> error + CLAMDConn"

record Clamd =
  address :: string

definition stringContainsCTLByte :: "string \<Rightarrow> bool" where
  "stringContainsCTLByte s = list_ex (\<lambda>b. (of_char b :: nat) < 32 \<or> b = CHR 0x7F) s"

definition isLetter :: "char \<Rightarrow> bool" where
  "isLetter x = (let n = (of_char x :: nat) in (97 \<le> n \<and> n \<le> 122) \<or> (65 \<le> n \<and> n \<le> 90))"

fun getScheme_loop :: "string \<Rightarrow> nat \<Rightarrow> string \<Rightarrow> string + string \<times> string" where
  "getScheme_loop rawURL i [] = Inr ([], rawURL)"
| "getScheme_loop rawURL i (x # xs) =
     (if isLetter x then getScheme_loop rawURL (i + 1) xs
      else if isDigit x \<or> x = CHR ''+'' \<or> x = CHR ''-'' \<or> x = CHR ''.'' then
        (if i = 0 then Inr ([], rawURL) else getScheme_loop rawURL (i + 1) xs)
      else if x = CHR '':'' then
        (if i = 0 then Inl ''missing protocol scheme''
         else Inr (take i rawURL, drop (i + 1) rawURL))
      else Inr ([], rawURL))"

definition getScheme :: "string \<Rightarrow> string + string \<times> string" where
  "getScheme rawURL = getScheme_loop rawURL 0 rawURL"

definition ToLower :: "string \<Rightarrow> string" where
  "ToLower s =
     map (\<lambda>x. if 65 \<le> (of_char x :: nat) \<and> (of_char x :: nat) \<le> 90
               then char_of ((of_char x :: nat) + 32) else x) s"

definition url_Parse :: "env \<Rightarrow> string \<Rightarrow> error + URL" where
  "url_Parse e rawURL =
     (let u = takeWhile (\<lambda>x. x \<noteq> CHR ''#'') rawURL;
          frag = drop 1 (dropWhile (\<lambda>x. x \<noteq> CHR ''#'') rawURL)
      in if stringContainsCTLByte u
         then Inl (UrlError ''parse'' u ''net/url: invalid control character in URL'')
         else case getScheme u of
                Inl msg \<Rightarrow> Inl (UrlError ''parse'' u msg)
              | Inr (scheme, rest) \<Rightarrow> url_parseRest e (ToLower scheme) rest frag)"

text \<open>
  The functions that dial also return the list of the dial attempts they made, as pairs
  of network and address.
\<close>

type_synonym dials = "(string \<times> string) list"

definition newCLAMDTcpConn :: "env \<Rightarrow> string \<Rightarrow> dials \<times> (error + CLAMDConn)" where
  "newCLAMDTcpConn e addr =
     ([(''tcp'', addr)],
      case net_Dial e ''tcp'' addr of Inl err \<Rightarrow> Inl err | Inr conn \<Rightarrow> Inr conn)"

definition newCLAMDUnixConn :: "env \<Rightarrow> string \<Rightarrow> dials \<times> (error + CLAMDConn)" where
  "newCLAMDUnixConn e addr =
     ([(''unix'', addr)],
      case net_Dial e ''unix'' addr of Inl err \<Rightarrow> Inl err | Inr conn \<Rightarrow> Inr conn)"

definition newConnection :: "env \<Rightarrow> Clamd \<Rightarrow> dials \<times> (error + CLAMDConn)" where
  "newConnection e c =
     (case url_Parse e (address c) of
        Inl err \<Rightarrow> ([], Inl err)
      | Inr u \<Rightarrow>
          if Scheme u = ''tcp'' then newCLAMDTcpConn e (Host u)
          else if Scheme u = ''unix'' then newCLAMDUnixConn e (url_Path u)
          else newCLAMDUnixConn e (address c))"


section \<open>Commands\<close>

text \<open>
  \<^verbatim>\<open>simpleCommand\<close> returns either the error of dialling or of sending the command, or the
  channel.  The goroutine that closes the connection once the response is drained has no
  part in what the caller sees.
\<close>

definition simpleCommand :: "env \<Rightarrow> Clamd \<Rightarrow> string \<Rightarrow> fault + (error + chan)" where
  "simpleCommand e c command =
     (case snd (newConnection e c) of
        Inl err \<Rightarrow> Inr (Inl err)
      | Inr conn \<Rightarrow>
          (case sendCommand conn command of
             (conn1, Some err) \<Rightarrow> Inr (Inl err)
           | (conn1, None) \<Rightarrow>
               (case readResponse conn1 of Inl f \<Rightarrow> Inl f | Inr ch \<Rightarrow> Inr (Inr ch))))"

text \<open>
  \<^verbatim>\<open>s := <-ch\<close> on a channel that is closed and empty gives the zero value, a nil
  pointer, and \<^verbatim>\<open>s.Raw\<close> then panics.
\<close>

definition Ping :: "env \<Rightarrow> Clamd \<Rightarrow> fault + error option" where
  "Ping e c =
     (case simpleCommand e c ''PING'' of
        Inl f \<Rightarrow> Inl f
      | Inr (Inl err) \<Rightarrow> Inr (Some err)
      | Inr (Inr ch) \<Rightarrow>
          (case ch of
             [] \<Rightarrow> Inl NilDereference
           | s # _ \<Rightarrow> if Raw s = ''PONG'' then Inr None else Inr (Some (InvalidResponse s))))"

definition Reload :: "env \<Rightarrow> Clamd \<Rightarrow> fault + error option" where
  "Reload e c =
     (case simpleCommand e c ''RELOAD'' of
        Inl f \<Rightarrow> Inl f
      | Inr (Inl err) \<Rightarrow> Inr (Some err)
      | Inr (Inr ch) \<Rightarrow>
          (case ch of
             [] \<Rightarrow> Inl NilDereference
           | s # _ \<Rightarrow> if Raw s = ''RELOADING'' then Inr None else Inr (Some (InvalidResponse s))))"

record Stats =
  Pools :: string
  State :: string
  Threads :: string
  Memstats :: string
  Queue :: string

definition emptyStats :: Stats where
  "emptyStats = \<lparr>Pools = [], State = [], Threads = [], Memstats = [], Queue = []\<rparr>"

text \<open>\<^verbatim>\<open>s[i:]\<close> panics when \<open>i\<close> is beyond the length of the string.\<close>

definition sliceFrom :: "string \<Rightarrow> nat \<Rightarrow> fault + string" where
  "sliceFrom s i = (if i \<le> length s then Inr (drop i s) else Inl (SliceBoundsOutOfRange i (length s)))"

fun Stats_loop :: "chan \<Rightarrow> Stats \<Rightarrow> fault + Stats" where
  "Stats_loop [] stats = Inr stats"
| "Stats_loop (s # ch) stats =
     (if HasPrefix (Raw s) ''POOLS'' then
        (case sliceFrom (Raw s) 6 of
           Inl f \<Rightarrow> Inl f
         | Inr t \<Rightarrow> Stats_loop ch (stats\<lparr>Pools := Trim t '' ''\<rparr>))
      else if HasPrefix (Raw s) ''STATE'' then Stats_loop ch (stats\<lparr>State := Raw s\<rparr>)
      else if HasPrefix (Raw s) ''THREADS'' then Stats_loop ch (stats\<lparr>Threads := Raw s\<rparr>)
      else if HasPrefix (Raw s) ''QUEUE'' then Stats_loop ch (stats\<lparr>Queue := Raw s\<rparr>)
      else if HasPrefix (Raw s) ''MEMSTATS'' then Stats_loop ch (stats\<lparr>Memstats := Raw s\<rparr>)
      else if HasPrefix (Raw s) ''END'' then Stats_loop ch stats
      else Stats_loop ch stats)"

definition Stats :: "env \<Rightarrow> Clamd \<Rightarrow> fault + (error + Stats)" where
  "Stats e c =
     (case simpleCommand e c ''STATS'' of
        Inl f \<Rightarrow> Inl f
      | Inr (Inl err) \<Rightarrow> Inr (Inl err)
      | Inr (Inr ch) \<Rightarrow>
          (case Stats_loop ch emptyStats of Inl f \<Rightarrow> Inl f | Inr stats \<Rightarrow> Inr (Inr stats)))"

subsection \<open>Stream scan\<close>

text \<open>
  An \<^verbatim>\<open>io.Reader\<close> is a state and a function from the state and the size of the buffer to
  the bytes read, the error and the next state.  A \<^verbatim>\<open>Read\<close> never returns more than the
  buffer holds, hence the \<open>take\<close>.  \<open>bytes_Read\<close> is \<^verbatim>\<open>bytes.Reader\<close>, whose state is
  what is left of the data: it fills the buffer as far as the data goes and reports EOF
  once nothing is left.  \<open>short_Read m\<close> is a source that hands over at most \<open>m\<close> bytes at
  a time, as a pipe or a socket does.
\<close>

type_synonym 's reader = "'s \<Rightarrow> nat \<Rightarrow> (string \<times> error option) \<times> 's"

definition io_Read :: "'s reader \<Rightarrow> 's \<Rightarrow> nat \<Rightarrow> (string \<times> error option) \<times> 's" where
  "io_Read rd s n = (case rd s n of ((bs, err), s') \<Rightarrow> ((take n bs, err), s'))"

definition bytes_Read :: "string reader" where
  "bytes_Read s n = (if s = [] then (([], Some EOF), s) else ((take n s, None), drop n s))"

definition short_Read :: "nat \<Rightarrow> string reader" where
  "short_Read m s n =
     (if s = [] then (([], Some EOF), s) else ((take (min m n) s, None), drop (min m n) s))"

text \<open>
  The loop of \<^verbatim>\<open>ScanStream\<close> runs until a \<^verbatim>\<open>Read\<close> returns an error, which a source need
  never do.  \<open>ScanStream_loop\<close> runs at most \<open>fuel\<close> rounds and returns the connection
  as it is then, and whether the loop has ended.  The results of \<^verbatim>\<open>sendCommand\<close> and of
  \<^verbatim>\<open>sendChunk\<close> are dropped, as in the source.
\<close>

fun ScanStream_loop :: "nat \<Rightarrow> 's reader \<Rightarrow> 's \<Rightarrow> CLAMDConn \<Rightarrow> CLAMDConn \<times> bool" where
  "ScanStream_loop 0 rd s conn = (conn, False)"
| "ScanStream_loop (Suc fuel) rd s conn =
     (case io_Read rd s CHUNK_SIZE of
        ((bs, err), s') \<Rightarrow>
          (let nr = length bs;
               conn1 = (if nr > 0 then fst (sendChunk conn (take nr bs)) else conn)
           in if err \<noteq> None then (conn1, True) else ScanStream_loop fuel rd s' conn1))"

text \<open>
  The result is the connection as \<^verbatim>\<open>ScanStream\<close> leaves it, if it opened one, and what
  it returns, \<open>None\<close> while the loop has not ended within \<open>fuel\<close> rounds.
\<close>

definition ScanStream ::
  "nat \<Rightarrow> env \<Rightarrow> Clamd \<Rightarrow> 's reader \<Rightarrow> 's \<Rightarrow> CLAMDConn option \<times> (fault + (error + chan)) option" where
  "ScanStream fuel e c rd r =
     (case snd (newConnection e c) of
        Inl err \<Rightarrow> (None, Some (Inr (Inl err)))
      | Inr conn \<Rightarrow>
          (let conn1 = fst (sendCommand conn ''INSTREAM'')
           in case ScanStream_loop fuel rd r conn1 of
                (conn2, False) \<Rightarrow> (Some conn2, None)
              | (conn2, True) \<Rightarrow>
                  (case sendEOF conn2 of
                     (conn3, Some err) \<Rightarrow> (Some conn3, Some (Inr (Inl err)))
                   | (conn3, None) \<Rightarrow>
                       (case readResponse conn3 of
                          Inl f \<Rightarrow> (Some conn3, Some (Inl f))
                        | Inr ch \<Rightarrow> (Some conn3, Some (Inr (Inr ch)))))))"

section \<open>Reference notions for the claims\<close>

text \<open>The value of a byte string read as a big-endian unsigned integer.\<close>

definition be_decode :: "string \<Rightarrow> nat" where
  "be_decode bs = foldl (\<lambda>n b. n * 256 + of_char b) 0 bs"

text \<open>The two writes that make a chunk frame: the four-byte length, then the data.\<close>

definition frame :: "string \<Rightarrow> string list" where
  "frame d =
     (let n = int (length d)
      in [[byte (n div 2 ^ 24), byte (n div 2 ^ 16), byte (n div 2 ^ 8), byte n], d])"

text \<open>
  An environment for the examples: the daemon listens on the socket
  \<^verbatim>\<open>/tmp/clamd.socket\<close> only, a connection to it has the given write results and the given
  response, and an address without scheme is a path.
\<close>

definition exampleEnv :: "error option list \<Rightarrow> string \<Rightarrow> env" where
  "exampleEnv fs resp =
     \<lparr>url_parseRest = (\<lambda>scheme rest frag. Inr \<lparr>Scheme = scheme, Host = [], url_Path = rest\<rparr>),
      net_Dial = (\<lambda>network addr.
         if network = ''unix'' \<and> addr = ''/tmp/clamd.socket''
         then Inr \<lparr>writes = [], faults = fs, incoming = resp\<rparr>
         else Inl (NetError ''connection refused''))\<rparr>"


text \<open>The sizes of the writes a connection has seen, in order.\<close>

definition writeSizes :: "CLAMDConn \<Rightarrow> nat list" where
  "writeSizes conn = map length (writes conn)"

text \<open>The last record of a response whose raw text starts with a keyword, if there is one.\<close>

definition lastLine :: "string \<Rightarrow> chan \<Rightarrow> ScanResult option" where
  "lastLine p ch =
     (case filter (\<lambda>s. HasPrefix (Raw s) p) ch of [] \<Rightarrow> None | x # xs \<Rightarrow> Some (last (x # xs)))"

text \<open>A response of the daemon to \<^verbatim>\<open>STATS\<close>, for the examples.\<close>

definition statsResponse :: string where
  "statsResponse =
     ''POOLS: 1'' @ [CHR 0x0A] @ ''STATE: VALID PRIMARY'' @ [CHR 0x0A] @
     ''THREADS: live 1  idle 0 max 12 idle-timeout 30'' @ [CHR 0x0A] @
     ''QUEUE: 0 items'' @ [CHR 0x0A] @ ''MEMSTATS: heap 3.656M'' @ [CHR 0x0A] @
     ''END'' @ [CHR 0x0A]"

text \<open>
  Sources that fill the buffer.  \<open>holds r s\<close> says that the source in state \<open>r\<close> has
  the bytes \<open>s\<close> left.  Every \<^verbatim>\<open>Read\<close> of such a source returns as much of them as the
  buffer takes; it reports an error only together with the last byte or after it, and it
  does report one once nothing is left.  \<open>eager_Read\<close> is a source that reports EOF
  together with the last bytes.
\<close>

definition fills :: "'s reader \<Rightarrow> ('s \<Rightarrow> string \<Rightarrow> bool) \<Rightarrow> bool" where
  "fills rd holds =
     (\<forall>r s n. holds r s \<and> 0 < n \<longrightarrow>
        (case rd r n of
           ((bs, err), r') \<Rightarrow>
             bs = take n s \<and> holds r' (drop n s) \<and> (err \<noteq> None \<longrightarrow> length s \<le> n) \<and>
             (s = [] \<longrightarrow> err \<noteq> None)))"

definition eager_Read :: "string reader" where
  "eager_Read s n = ((take n s, if length s \<le> n then Some EOF else None), drop n s)"


section \<open>Properties of the matcher and of the grammar\<close>

lemma run_Str_iff:
  "(s', c') \<in> set (run line (Str w) s c) \<longleftrightarrow> c' = c \<and> s = w @ s'"
proof -
  have "take (length w) s = w \<Longrightarrow> s = w @ drop (length w) s"
    by (metis append_take_drop_id)
  then show ?thesis by auto
qed

lemma set_run_Plus:
  "set (run line (Plus k) s c) = (\<lambda>n. (drop n s, c)) ` {1..length (takeWhile (accepts k) s)}"
proof -
  have "set (rev [1..<Suc n]) = {1..n}" for n :: nat
    by auto
  then show ?thesis
    by (simp only: run.simps set_map)
qed

lemma run_Plus_iff:
  "(s', c') \<in> set (run line (Plus k) s c) \<longleftrightarrow>
     c' = c \<and> (\<exists>w. w \<noteq> [] \<and> (\<forall>x\<in>set w. accepts k x) \<and> s = w @ s')"
proof
  assume "(s', c') \<in> set (run line (Plus k) s c)"
  then obtain n where n: "1 \<le> n" "n \<le> length (takeWhile (accepts k) s)" "s' = drop n s" "c' = c"
    unfolding set_run_Plus by auto
  have "set (take n s) \<subseteq> set (takeWhile (accepts k) s)"
    using n(2) by (metis set_take_subset_set_take takeWhile_eq_take)
  then have "\<forall>x\<in>set (take n s). accepts k x"
    by (auto dest: set_takeWhileD)
  moreover have "take n s \<noteq> []" using n(1,2) length_takeWhile_le[of "accepts k" s]
    by (cases s) auto
  ultimately show "c' = c \<and> (\<exists>w. w \<noteq> [] \<and> (\<forall>x\<in>set w. accepts k x) \<and> s = w @ s')"
    using n(3,4) by (intro conjI exI[of _ "take n s"]) auto
next
  assume "c' = c \<and> (\<exists>w. w \<noteq> [] \<and> (\<forall>x\<in>set w. accepts k x) \<and> s = w @ s')"
  then obtain w where w: "c' = c" "w \<noteq> []" "\<forall>x\<in>set w. accepts k x" "s = w @ s'" by blast
  have "length w \<le> length (takeWhile (accepts k) s)"
    using w(3,4) by simp
  moreover have "1 \<le> length w" using w(2) by (cases w) auto
  moreover have "s' = drop (length w) s" using w(4) by simp
  ultimately have "(s', c) \<in> (\<lambda>n. (drop n s, c)) ` {1..length (takeWhile (accepts k) s)}"
    by (intro image_eqI[of _ _ "length w"]) auto
  then show "(s', c') \<in> set (run line (Plus k) s c)"
    unfolding set_run_Plus using w(1) by simp
qed

lemma run_Seq_iff:
  "(s'', c'') \<in> set (run line (Seq a b) s c) \<longleftrightarrow>
     (\<exists>s' c'. (s', c') \<in> set (run line a s c) \<and> (s'', c'') \<in> set (run line b s' c'))"
  by auto

lemma run_Alt_iff:
  "x \<in> set (run line (Alt a b) s c) \<longleftrightarrow> x \<in> set (run line a s c) \<or> x \<in> set (run line b s c)"
  by auto

lemma run_Opt_iff:
  "x \<in> set (run line (Opt a) s c) \<longleftrightarrow> x \<in> set (run line a s c) \<or> x = (s, c)"
  by auto

lemma run_Eol_iff:
  "(s', c') \<in> set (run line Eol s c) \<longleftrightarrow> s = [] \<and> s' = [] \<and> c' = c"
  by auto

lemma run_Bol_iff:
  "(s', c') \<in> set (run line Bol s c) \<longleftrightarrow> length s = length line \<and> s' = s \<and> c' = c"
  by auto

lemma run_Group_raw:
  "(s', c'') \<in> set (run line (Group i nm a) s c) \<longleftrightarrow>
     (\<exists>c'. (s', c') \<in> set (run line a s c) \<and> c'' = c'(i \<mapsto> take (length s - length s') s))"
  by auto

declare run.simps [simp del]

lemma run_suffix:
  "(s', c') \<in> set (run line r s c) \<Longrightarrow> \<exists>w. s = w @ s'"
proof (induction r arbitrary: s c s' c')
  case Bol
  then show ?case by (simp add: run_Bol_iff)
next
  case Eol
  then show ?case by (simp add: run_Eol_iff)
next
  case (Str w)
  then show ?case by (auto simp: run_Str_iff)
next
  case (Plus k)
  then show ?case by (auto simp: run_Plus_iff)
next
  case (Seq a b)
  from Seq.prems obtain s1 c1 where
    "(s1, c1) \<in> set (run line a s c)" "(s', c') \<in> set (run line b s1 c1)"
    unfolding run_Seq_iff by blast
  with Seq.IH obtain w1 w2 where "s = w1 @ s1" "s1 = w2 @ s'" by blast
  then have "s = (w1 @ w2) @ s'" by simp
  then show ?case by blast
next
  case (Alt a b)
  then show ?case unfolding run_Alt_iff by blast
next
  case (Opt a)
  then show ?case unfolding run_Opt_iff by blast
next
  case (Group i nm a)
  then show ?case unfolding run_Group_raw by blast
qed

lemma run_Group_iff:
  "(s', c'') \<in> set (run line (Group i nm a) s c) \<longleftrightarrow>
     (\<exists>c' w. (s', c') \<in> set (run line a s c) \<and> s = w @ s' \<and> c'' = c'(i \<mapsto> w))"
proof
  assume "(s', c'') \<in> set (run line (Group i nm a) s c)"
  then obtain c' where c': "(s', c') \<in> set (run line a s c)"
    "c'' = c'(i \<mapsto> take (length s - length s') s)" unfolding run_Group_raw by blast
  from run_suffix[OF c'(1)] obtain w where "s = w @ s'" by blast
  with c' show "\<exists>c' w. (s', c') \<in> set (run line a s c) \<and> s = w @ s' \<and> c'' = c'(i \<mapsto> w)"
    by (intro exI[of _ c'] exI[of _ w]) simp
next
  assume "\<exists>c' w. (s', c') \<in> set (run line a s c) \<and> s = w @ s' \<and> c'' = c'(i \<mapsto> w)"
  then obtain c' w where "(s', c') \<in> set (run line a s c)" "s = w @ s'" "c'' = c'(i \<mapsto> w)"
    by blast
  then show "(s', c'') \<in> set (run line (Group i nm a) s c)"
    unfolding run_Group_raw by (intro exI[of _ c']) simp
qed

lemma run_SeqE:
  assumes "(s'', c'') \<in> set (run line (Seq a b) s c)"
  obtains s' c' where "(s', c') \<in> set (run line a s c)" "(s'', c'') \<in> set (run line b s' c')"
  using assms unfolding run_Seq_iff by blast

lemma run_StrE:
  assumes "(s', c') \<in> set (run line (Str w) s c)"
  obtains "s = w @ s'" "c' = c"
  using assms unfolding run_Str_iff by blast

lemma run_PlusE:
  assumes "(s', c') \<in> set (run line (Plus k) s c)"
  obtains w where "s = w @ s'" "c' = c" "w \<noteq> []" "\<forall>x\<in>set w. accepts k x"
  using assms unfolding run_Plus_iff by blast

lemma run_GroupE:
  assumes "(s', c'') \<in> set (run line (Group i nm a) s c)"
  obtains c' w where "(s', c') \<in> set (run line a s c)" "s = w @ s'" "c'' = c'(i \<mapsto> w)"
  using assms unfolding run_Group_iff by blast

lemma run_SeqI:
  "(s', c') \<in> set (run line a s c) \<Longrightarrow> (s'', c'') \<in> set (run line b s' c')
     \<Longrightarrow> (s'', c'') \<in> set (run line (Seq a b) s c)"
  unfolding run_Seq_iff by blast

lemma run_StrI: "(s', c) \<in> set (run line (Str w) (w @ s') c)"
  unfolding run_Str_iff by simp

lemma run_PlusI:
  "w \<noteq> [] \<Longrightarrow> \<forall>x\<in>set w. accepts k x \<Longrightarrow> (s', c) \<in> set (run line (Plus k) (w @ s') c)"
  unfolding run_Plus_iff by blast

lemma run_GroupI:
  "(s', c') \<in> set (run line a (w @ s') c) \<Longrightarrow>
     (s', c'(i \<mapsto> w)) \<in> set (run line (Group i nm a) (w @ s') c)"
  unfolding run_Group_iff by blast

lemma run_sigGroup_sound:
  assumes "(s', c') \<in> set (run line sigGroup s c)"
  shows "\<exists>h z. h \<noteq> [] \<and> CHR '':'' \<notin> set h \<and> z \<noteq> [] \<and> list_all isDigit z \<and>
        s = ''('' @ h @ '':'' @ z @ '')'' @ s' \<and>
        c' = c(6 \<mapsto> h, 5 \<mapsto> h, 7 \<mapsto> z, 4 \<mapsto> ''('' @ h @ '':'' @ z @ '')'')"
  using assms unfolding sigGroup_def
  apply (elim run_GroupE run_SeqE run_StrE run_PlusE)
  subgoal for c4 w4 s1 c1 s2 c5 c6 w5 c0 w6 s3 c2 s4 c7 c3 w7 h z
    apply (rule exI[of _ h], rule exI[of _ z])
    apply (auto simp: list_all_iff)
    done
  done

lemma run_sigGroup_complete:
  assumes "h \<noteq> []" "CHR '':'' \<notin> set h" "z \<noteq> []" "list_all isDigit z"
  shows "(s', c(6 \<mapsto> h, 5 \<mapsto> h, 7 \<mapsto> z, 4 \<mapsto> ''('' @ h @ '':'' @ z @ '')''))
           \<in> set (run line sigGroup (''('' @ h @ '':'' @ z @ '')'' @ s') c)"
proof -
  have 1: "('':'' @ z @ '')'' @ s', c(6 \<mapsto> h, 5 \<mapsto> h))
      \<in> set (run line (Group 5 ''virhash'' (Group 6 [] (Plus (NotChr CHR '':''))))
               (h @ '':'' @ z @ '')'' @ s') c)"
    using assms by (intro run_GroupI run_PlusI) auto
  have 2: "('')'' @ s', c(6 \<mapsto> h, 5 \<mapsto> h, 7 \<mapsto> z))
      \<in> set (run line (Group 7 ''virsize'' (Plus Digit)) (z @ '')'' @ s') (c(6 \<mapsto> h, 5 \<mapsto> h)))"
    using assms by (intro run_GroupI run_PlusI) (auto simp: list_all_iff)
  have "(s', c(6 \<mapsto> h, 5 \<mapsto> h, 7 \<mapsto> z))
      \<in> set (run line (Seq (Str ''('')
       (Seq (Group 5 ''virhash'' (Group 6 [] (Plus (NotChr CHR '':''))))
       (Seq (Str '':'')
       (Seq (Group 7 ''virsize'' (Plus Digit))
            (Str '')''))))) ((''('' @ h @ '':'' @ z @ '')'') @ s') c)"
    apply (simp only: append_assoc)
    apply (rule run_SeqI[OF run_StrI])
    apply (rule run_SeqI[OF 1])
    apply (rule run_SeqI[OF run_StrI])
    apply (rule run_SeqI[OF 2])
    apply (rule run_StrI)
    done
  then show ?thesis
    unfolding sigGroup_def by (simp only: append_assoc[symmetric] run_GroupI)
qed


lemma run_Group_Plus_iff:
  "(s', c') \<in> set (run line (Group i nm (Plus k)) s c) \<longleftrightarrow>
     (\<exists>w. w \<noteq> [] \<and> (\<forall>x\<in>set w. accepts k x) \<and> s = w @ s' \<and> c' = c(i \<mapsto> w))"
  unfolding run_Group_iff run_Plus_iff by auto

lemma run_descGroup_sound:
  assumes "(s', c') \<in> set (run line (Opt descGroup) s c)"
  shows "\<exists>b. wf_body b \<and> s = bodyText b @ s' \<and> c' = bodyCaps b c"
proof -
  from assms consider "(s', c') = (s, c)" | "(s', c') \<in> set (run line descGroup s c)"
    unfolding run_Opt_iff by blast
  then show ?thesis
  proof cases
    case 1
    then show ?thesis by (intro exI[of _ NoDesc]) simp
  next
    case 2
    then obtain c2 w2 where w2: "s = w2 @ s'" "c' = c2(2 \<mapsto> w2)"
      and r: "(s', c2) \<in> set (run line (Seq (Group 3 ''desc'' (Plus (NotChr CHR '':'')))
                (Seq (Opt sigGroup) (Str '' ''))) s c)"
      unfolding descGroup_def by (rule run_GroupE)
    from r obtain s1 c1 where g3: "(s1, c1) \<in> set (run line (Group 3 ''desc'' (Plus (NotChr CHR '':''))) s c)"
      and r2: "(s', c2) \<in> set (run line (Seq (Opt sigGroup) (Str '' '')) s1 c1)"
      by (rule run_SeqE)
    from r2 obtain s2 c3 where opt: "(s2, c3) \<in> set (run line (Opt sigGroup) s1 c1)"
      and st: "(s', c2) \<in> set (run line (Str '' '') s2 c3)"
      by (rule run_SeqE)
    from st have sp: "s2 = '' '' @ s'" "c2 = c3"
      unfolding run_Str_iff by simp_all
    from g3 obtain d where d: "s = d @ s1" "d \<noteq> []" "CHR '':'' \<notin> set d" "c1 = c(3 \<mapsto> d)"
      unfolding run_Group_Plus_iff by auto
    from opt consider "(s2, c3) = (s1, c1)" | "(s2, c3) \<in> set (run line sigGroup s1 c1)"
      unfolding run_Opt_iff by blast
    then show ?thesis
    proof cases
      case 1
      then have "w2 @ s' = (d @ '' '') @ s'" using w2 d sp by simp
      then have "w2 = d @ '' ''" by (simp only: append_same_eq)
      with 1 w2 d sp show ?thesis by (intro exI[of _ "Desc d"]) simp
    next
      case 2
      from run_sigGroup_sound[OF 2] obtain h z where
        hz: "h \<noteq> []" "CHR '':'' \<notin> set h" "z \<noteq> []" "list_all isDigit z"
            "s1 = ''('' @ h @ '':'' @ z @ '')'' @ s2"
            "c3 = c1(6 \<mapsto> h, 5 \<mapsto> h, 7 \<mapsto> z, 4 \<mapsto> ''('' @ h @ '':'' @ z @ '')'')"
        by blast
      have "w2 @ s' = (d @ sigText h z @ '' '') @ s'"
        using w2 d sp hz by (simp add: sigText_def)
      then have "w2 = d @ sigText h z @ '' ''" by (simp only: append_same_eq)
      with w2 d sp hz show ?thesis
        by (intro exI[of _ "DescSig d h z"]) (simp add: sigText_def)
    qed
  qed
qed


lemma run_descGroup_complete:
  assumes "wf_body b"
  shows "(s', bodyCaps b c) \<in> set (run line (Opt descGroup) (bodyText b @ s') c)"
proof (cases b)
  case NoDesc
  then show ?thesis unfolding run_Opt_iff by simp
next
  case (Desc d)
  have 1: "('' '' @ s', c(3 \<mapsto> d)) \<in>
      set (run line (Group 3 ''desc'' (Plus (NotChr CHR '':''))) (d @ '' '' @ s') c)"
    unfolding run_Group_Plus_iff using assms Desc by auto
  have 2: "('' '' @ s', c(3 \<mapsto> d)) \<in> set (run line (Opt sigGroup) ('' '' @ s') (c(3 \<mapsto> d)))"
    unfolding run_Opt_iff by simp
  have "(s', c(3 \<mapsto> d)) \<in> set (run line (Seq (Group 3 ''desc'' (Plus (NotChr CHR '':'')))
       (Seq (Opt sigGroup) (Str '' ''))) (d @ '' '' @ s') c)"
    by (rule run_SeqI[OF 1], rule run_SeqI[OF 2], rule run_StrI)
  then have "(s', c(3 \<mapsto> d)) \<in> set (run line (Seq (Group 3 ''desc'' (Plus (NotChr CHR '':'')))
       (Seq (Opt sigGroup) (Str '' ''))) ((d @ '' '') @ s') c)"
    by simp
  then have "(s', c(3 \<mapsto> d, 2 \<mapsto> d @ '' '')) \<in> set (run line descGroup ((d @ '' '') @ s') c)"
    unfolding descGroup_def by (rule run_GroupI)
  then show ?thesis using Desc unfolding run_Opt_iff by simp
next
  case (DescSig d h z)
  let ?c1 = "c(3 \<mapsto> d)"
  let ?c2 = "?c1(6 \<mapsto> h, 5 \<mapsto> h, 7 \<mapsto> z, 4 \<mapsto> ''('' @ h @ '':'' @ z @ '')'')"
  have 1: "(''('' @ h @ '':'' @ z @ '')'' @ '' '' @ s', ?c1) \<in>
      set (run line (Group 3 ''desc'' (Plus (NotChr CHR '':'')))
             (d @ ''('' @ h @ '':'' @ z @ '')'' @ '' '' @ s') c)"
    unfolding run_Group_Plus_iff using assms DescSig by auto
  have "('' '' @ s', ?c2) \<in> set (run line sigGroup (''('' @ h @ '':'' @ z @ '')'' @ '' '' @ s') ?c1)"
    using assms DescSig by (intro run_sigGroup_complete) simp_all
  then have 2: "('' '' @ s', ?c2) \<in>
      set (run line (Opt sigGroup) (''('' @ h @ '':'' @ z @ '')'' @ '' '' @ s') ?c1)"
    unfolding run_Opt_iff by (rule disjI1)
  have "(s', ?c2) \<in> set (run line (Seq (Group 3 ''desc'' (Plus (NotChr CHR '':'')))
       (Seq (Opt sigGroup) (Str '' ''))) (d @ ''('' @ h @ '':'' @ z @ '')'' @ '' '' @ s') c)"
    by (rule run_SeqI[OF 1], rule run_SeqI[OF 2], rule run_StrI)
  then have "(s', ?c2) \<in> set (run line (Seq (Group 3 ''desc'' (Plus (NotChr CHR '':'')))
       (Seq (Opt sigGroup) (Str '' ''))) ((d @ sigText h z @ '' '') @ s') c)"
    by (simp add: sigText_def)
  then have "(s', ?c2(2 \<mapsto> d @ sigText h z @ '' '')) \<in>
       set (run line descGroup ((d @ sigText h z @ '' '') @ s') c)"
    unfolding descGroup_def by (rule run_GroupI)
  then show ?thesis using DescSig unfolding run_Opt_iff by (simp add: sigText_def)
qed

lemma run_statusGroup_iff:
  "(s', c') \<in> set (run line statusGroup s c) \<longleftrightarrow>
     (\<exists>st. st \<in> statuses \<and> s = st @ s' \<and> c' = c(8 \<mapsto> st))"
proof
  assume "(s', c') \<in> set (run line statusGroup s c)"
  then obtain c1 w where w: "s = w @ s'" "c' = c1(8 \<mapsto> w)"
    and r: "(s', c1) \<in> set (run line (Alt (Str ''FOUND'') (Alt (Str ''ERROR'') (Str ''OK''))) s c)"
    unfolding statusGroup_def by (rule run_GroupE)
  from r have c1: "c1 = c" and "s = ''FOUND'' @ s' \<or> s = ''ERROR'' @ s' \<or> s = ''OK'' @ s'"
    unfolding run_Alt_iff run_Str_iff by blast+
  with w(1) have "w @ s' = ''FOUND'' @ s' \<or> w @ s' = ''ERROR'' @ s' \<or> w @ s' = ''OK'' @ s'"
    by simp
  then have "w = ''FOUND'' \<or> w = ''ERROR'' \<or> w = ''OK''"
    by (simp only: append_same_eq)
  then have "w \<in> statuses"
    by (auto simp: statuses_def RES_FOUND_def RES_ERROR_def RES_OK_def)
  with w c1 show "\<exists>st. st \<in> statuses \<and> s = st @ s' \<and> c' = c(8 \<mapsto> st)"
    by blast
next
  assume "\<exists>st. st \<in> statuses \<and> s = st @ s' \<and> c' = c(8 \<mapsto> st)"
  then obtain st where st: "st \<in> statuses" "s = st @ s'" "c' = c(8 \<mapsto> st)" by blast
  from st(1) have "(s', c) \<in> set (run line (Alt (Str ''FOUND'') (Alt (Str ''ERROR'') (Str ''OK''))) (st @ s') c)"
    unfolding run_Alt_iff run_Str_iff statuses_def RES_FOUND_def RES_ERROR_def RES_OK_def
    by auto
  then show "(s', c') \<in> set (run line statusGroup s c)"
    unfolding statusGroup_def st(2,3) by (rule run_GroupI)
qed

lemma run_resultRegex_sound:
  assumes "(s', c') \<in> set (run line resultRegex s Map.empty)"
  shows "s' = [] \<and> length s = length line \<and>
         (\<exists>p b st. wf_line p b st \<and> s = render p b st \<and> c' = lineCaps p b st)"
proof -
  from assms obtain s0 c0 where b: "(s0, c0) \<in> set (run line Bol s Map.empty)"
    and r1: "(s', c') \<in> set (run line (Seq (Group 1 ''path'' (Plus (NotChr CHR '':'')))
        (Seq (Str '': '') (Seq (Opt descGroup) (Seq statusGroup Eol)))) s0 c0)"
    unfolding resultRegex_def by (rule run_SeqE)
  from b have s0: "length s = length line" "s0 = s" "c0 = Map.empty"
    unfolding run_Bol_iff by simp_all
  from r1 obtain s1 c1 where g1: "(s1, c1) \<in> set (run line (Group 1 ''path'' (Plus (NotChr CHR '':''))) s0 c0)"
    and r2: "(s', c') \<in> set (run line (Seq (Str '': '') (Seq (Opt descGroup) (Seq statusGroup Eol))) s1 c1)"
    by (rule run_SeqE)
  from g1 obtain p where p: "p \<noteq> []" "CHR '':'' \<notin> set p" "s0 = p @ s1" "c1 = c0(1 \<mapsto> p)"
    unfolding run_Group_Plus_iff by auto
  from r2 obtain s2 c2 where l: "(s2, c2) \<in> set (run line (Str '': '') s1 c1)"
    and r3: "(s', c') \<in> set (run line (Seq (Opt descGroup) (Seq statusGroup Eol)) s2 c2)"
    by (rule run_SeqE)
  from l have s2: "s1 = '': '' @ s2" "c2 = c1"
    unfolding run_Str_iff by simp_all
  from r3 obtain s3 c3 where d: "(s3, c3) \<in> set (run line (Opt descGroup) s2 c2)"
    and r4: "(s', c') \<in> set (run line (Seq statusGroup Eol) s3 c3)"
    by (rule run_SeqE)
  from run_descGroup_sound[OF d] obtain b where
    bd: "wf_body b" "s2 = bodyText b @ s3" "c3 = bodyCaps b c2" by blast
  from r4 obtain s4 c4 where g8: "(s4, c4) \<in> set (run line statusGroup s3 c3)"
    and e: "(s', c') \<in> set (run line Eol s4 c4)"
    by (rule run_SeqE)
  from g8 obtain st where st: "st \<in> statuses" "s3 = st @ s4" "c4 = c3(8 \<mapsto> st)"
    unfolding run_statusGroup_iff by blast
  from e have e': "s4 = []" "s' = []" "c' = c4"
    unfolding run_Eol_iff by simp_all
  have "wf_line p b st" using p bd st by (simp add: wf_line_def)
  moreover have "s = render p b st" using s0 p s2 bd st e' by (simp add: render_def)
  moreover have "c' = lineCaps p b st" using s0 p s2 bd st e' by (simp add: lineCaps_def)
  ultimately show ?thesis using e' s0 by blast
qed

lemma run_resultRegex_complete:
  assumes "wf_line p b st" "length (render p b st) = length line"
  shows "([], lineCaps p b st) \<in> set (run line resultRegex (render p b st) Map.empty)"
proof -
  let ?c1 = "Map.empty(1 \<mapsto> p)"
  have 0: "(render p b st, Map.empty) \<in> set (run line Bol (render p b st) Map.empty)"
    unfolding run_Bol_iff using assms(2) by simp
  have 1: "('': '' @ bodyText b @ st, ?c1) \<in>
     set (run line (Group 1 ''path'' (Plus (NotChr CHR '':''))) (render p b st) Map.empty)"
    unfolding run_Group_Plus_iff render_def using assms(1) by (auto simp: wf_line_def)
  have "wf_body b" using assms(1) by (simp add: wf_line_def)
  then have 2: "(st, bodyCaps b ?c1) \<in> set (run line (Opt descGroup) (bodyText b @ st) ?c1)"
    by (rule run_descGroup_complete)
  have 3: "([], lineCaps p b st) \<in> set (run line statusGroup st (bodyCaps b ?c1))"
    unfolding run_statusGroup_iff lineCaps_def using assms(1) by (auto simp: wf_line_def)
  have 4: "([], lineCaps p b st) \<in> set (run line Eol [] (lineCaps p b st))"
    unfolding run_Eol_iff by simp
  show ?thesis
    unfolding resultRegex_def
    apply (rule run_SeqI[OF 0])
    apply (rule run_SeqI[OF 1])
    apply (rule run_SeqI[OF run_StrI])
    apply (rule run_SeqI[OF 2])
    apply (rule run_SeqI[OF 3])
    apply (rule 4)
    done
qed

lemma length_SubexpNames: "length (SubexpNames resultRegex) = 9"
  by (simp add: SubexpNames_def resultRegex_def descGroup_def sigGroup_def statusGroup_def)

lemma upt_0_9: "[0..<9] = [0, 1, 2, 3, 4, 5, 6, 7, 8]"
  by (simp add: upt_rec)

lemma caps_submatches:
  "map (\<lambda>i. case ((lineCaps p b st)(0 \<mapsto> render p b st)) i of None \<Rightarrow> [] | Some w \<Rightarrow> w)
       [0..<length (SubexpNames resultRegex)] = submatches p b st"
  by (cases b) (simp_all add: length_SubexpNames upt_0_9 lineCaps_def submatches_def)

lemma run_resultRegex_off:
  "length s \<noteq> length line \<Longrightarrow> run line resultRegex s c = []"
  by (simp add: resultRegex_def run.simps)

lemma all_matches_resultRegex:
  "all_matches resultRegex line =
     map (\<lambda>(s', c). c(0 \<mapsto> take (length line - length s') line))
         (run line resultRegex line Map.empty)"
proof -
  let ?g = "\<lambda>i. map (\<lambda>(s', c). c(0 \<mapsto> take (length line - i - length s') (drop i line)))
                    (run line resultRegex (drop i line) Map.empty)"
  have "?g i = []" if "i \<in> set [Suc 0..<Suc (length line)]" for i
  proof -
    from that have "length (drop i line) \<noteq> length line" by auto
    then show ?thesis by (simp add: run_resultRegex_off)
  qed
  then have "map ?g [Suc 0..<Suc (length line)] = map (\<lambda>i. []) [Suc 0..<Suc (length line)]"
    by (intro map_cong refl)
  then have "concat (map ?g [Suc 0..<Suc (length line)]) = []"
    by simp
  moreover have "[0..<Suc (length line)] = 0 # [Suc 0..<Suc (length line)]"
    by (rule upt_conv_Cons) simp
  ultimately have "concat (map ?g [0..<Suc (length line)]) = ?g 0"
    by simp
  then show ?thesis
    unfolding all_matches_def by simp
qed

lemma FindStringSubmatch_sound:
  assumes "FindStringSubmatch resultRegex line \<noteq> []"
  shows "\<exists>p b st. wf_line p b st \<and> line = render p b st \<and>
           FindStringSubmatch resultRegex line = submatches p b st"
proof -
  from assms obtain s' c rest where run: "run line resultRegex line Map.empty = (s', c) # rest"
    unfolding FindStringSubmatch_def all_matches_resultRegex
    by (cases "run line resultRegex line Map.empty") auto
  then have "(s', c) \<in> set (run line resultRegex line Map.empty)" by simp
  from run_resultRegex_sound[OF this] obtain p b st where
    m: "s' = []" "wf_line p b st" "line = render p b st" "c = lineCaps p b st"
    by blast
  have "FindStringSubmatch resultRegex line =
     map (\<lambda>i. case ((lineCaps p b st)(0 \<mapsto> render p b st)) i of None \<Rightarrow> [] | Some w \<Rightarrow> w)
       [0..<length (SubexpNames resultRegex)]"
    unfolding FindStringSubmatch_def all_matches_resultRegex run using m by simp
  with m show ?thesis unfolding caps_submatches by blast
qed

lemma FindStringSubmatch_complete:
  assumes "wf_line p b st"
  shows "FindStringSubmatch resultRegex (render p b st) \<noteq> []"
proof -
  have "([], lineCaps p b st) \<in> set (run (render p b st) resultRegex (render p b st) Map.empty)"
    using assms by (intro run_resultRegex_complete) simp_all
  then obtain x rest where "run (render p b st) resultRegex (render p b st) Map.empty = x # rest"
    by (cases "run (render p b st) resultRegex (render p b st) Map.empty") auto
  then show ?thesis
    unfolding FindStringSubmatch_def all_matches_resultRegex
    by (simp add: length_SubexpNames upt_0_9)
qed

lemma enumerate_SubexpNames:
  "enumerate 0 (SubexpNames resultRegex) =
     [(0, []), (1, ''path''), (2, []), (3, ''desc''), (4, []), (5, ''virhash''), (6, []),
      (7, ''virsize''), (8, ''status'')]"
  by (simp add: SubexpNames_def resultRegex_def descGroup_def sigGroup_def statusGroup_def)

lemma parseResult_loop_submatches:
  assumes "st \<in> statuses"
  shows "parseResult_loop (enumerate 0 (SubexpNames resultRegex)) (submatches p b st) res =
     Inr (res\<lparr>Path := p, Description := descOf b, Hash := hashOf b,
              Size := (case Atoi (sizeOf b) of Inr n \<Rightarrow> n | Inl err \<Rightarrow> Size res),
              Status := st\<rparr>)"
  using assms
  by (auto simp: enumerate_SubexpNames submatches_def index_def statuses_def split: sum.split)

lemma parseResult_submatches:
  assumes "st \<in> statuses" "FindStringSubmatch resultRegex line = submatches p b st"
  shows "parseResult line =
     Inr \<lparr>Raw = line, Description = descOf b, Path = p, Hash = hashOf b, Size = sizeVal b,
          Status = st\<rparr>"
  unfolding parseResult_def Let_def assms(2) parseResult_loop_submatches[OF assms(1)]
  by (simp add: submatches_def emptyResult_def sizeVal_def split: sum.split)

lemma Atoi_digits:
  assumes "z \<noteq> []" "list_all isDigit z"
  shows "Atoi z = (if decimal z \<le> maxInt then Inr (decimal z) else Inl (ErrRange z))"
proof -
  from assms obtain x xs where z: "z = x # xs" "isDigit x" by (cases z) auto
  then have "take 1 z \<noteq> ''-''" "take 1 z \<noteq> ''+''"
    by (auto simp: isDigit_def)
  with assms show ?thesis by (simp add: Atoi_def)
qed

lemma Atoi_Nil: "Atoi [] = Inl (ErrSyntax [])"
  by (simp add: Atoi_def)

lemma digitVal_nonneg: "isDigit x \<Longrightarrow> 0 \<le> digitVal x"
  by (auto simp: isDigit_def digitVal_def)

lemma foldl_decimal_nonneg:
  "list_all isDigit z \<Longrightarrow> 0 \<le> n \<Longrightarrow> 0 \<le> foldl (\<lambda>n x. n * 10 + digitVal x) n z"
  by (induction z arbitrary: n) (simp_all add: digitVal_nonneg)

lemma decimal_nonneg: "list_all isDigit z \<Longrightarrow> 0 \<le> decimal z"
  unfolding decimal_def by (rule foldl_decimal_nonneg) simp_all

lemma sizeVal_simps:
  "sizeVal NoDesc = 0" "sizeVal (Desc d) = 0"
  "z \<noteq> [] \<Longrightarrow> list_all isDigit z \<Longrightarrow>
     sizeVal (DescSig d h z) = (if decimal z \<le> maxInt then decimal z else 0)"
  by (simp_all add: sizeVal_def Atoi_Nil Atoi_digits)

lemma status_chars:
  assumes "st \<in> statuses"
  shows "st \<noteq> []" "CHR '':'' \<notin> set st" "CHR '' '' \<notin> set st"
  using assms by (auto simp: statuses_def RES_FOUND_def RES_ERROR_def RES_OK_def)

lemma status_last:
  assumes "st \<in> statuses" "st' \<in> statuses" "last st = last st'"
  shows "st = st'"
  using assms by (auto simp: statuses_def RES_FOUND_def RES_ERROR_def RES_OK_def)

lemma not_digit_paren: "\<not> isDigit CHR '')''"
  by (simp add: isDigit_def)

lemma digit_not_paren: "list_all isDigit z \<Longrightarrow> CHR '')'' \<notin> set z"
  using not_digit_paren by (auto simp: list_all_iff)

lemma split_at_unique:
  assumes "x \<notin> set a" "x \<notin> set a'" "a @ x # r = a' @ x # r'"
  shows "a = a' \<and> r = r'"
proof -
  have "takeWhile (\<lambda>y. y \<noteq> x) (a @ x # r) = a" "takeWhile (\<lambda>y. y \<noteq> x) (a' @ x # r') = a'"
    using assms(1,2) by (auto simp: takeWhile_tail)
  with assms(3) have "a = a'" by simp
  with assms(3) show ?thesis by simp
qed

lemma tail_status_unique:
  assumes "st \<in> statuses" "st' \<in> statuses" "a @ st = a' @ st'"
  shows "a = a' \<and> st = st'"
proof -
  have "last (a @ st) = last st" "last (a' @ st') = last st'"
    using assms(1,2) by (simp_all add: status_chars)
  with assms(3) have "last st = last st'" by simp
  with assms(1,2) have "st = st'" by (rule status_last)
  with assms(3) show ?thesis by simp
qed

lemma colon_bodyText:
  assumes "wf_body b" "st \<in> statuses"
  shows "CHR '':'' \<in> set (bodyText b @ st) \<longleftrightarrow> (\<exists>d h z. b = DescSig d h z)"
  using assms by (cases b) (auto simp: sigText_def status_chars)

lemma bodyText_unique:
  assumes "wf_body b" "wf_body b'" "st \<in> statuses" "st' \<in> statuses"
    and eq: "bodyText b @ st = bodyText b' @ st'"
  shows "st' = st \<and> sameBody b b'"
proof (cases "\<exists>d h z. b = DescSig d h z")
  case True
  then obtain d h z where b: "b = DescSig d h z" by blast
  from True eq colon_bodyText[OF assms(1,3)] colon_bodyText[OF assms(2,4)]
  obtain d' h' z' where b': "b' = DescSig d' h' z'" by auto
  have e1: "(d @ ''('' @ h) @ CHR '':'' # (z @ CHR '')'' # '' '' @ st) =
        (d' @ ''('' @ h') @ CHR '':'' # (z' @ CHR '')'' # '' '' @ st')"
    using eq b b' by (simp add: sigText_def)
  have n1: "CHR '':'' \<notin> set (d @ ''('' @ h)" and n2: "CHR '':'' \<notin> set (d' @ ''('' @ h')"
    using assms(1,2) b b' by simp_all
  have 12: "d @ ''('' @ h = d' @ ''('' @ h' \<and>
      z @ CHR '')'' # '' '' @ st = z' @ CHR '')'' # '' '' @ st'"
    by (rule split_at_unique[OF n1 n2 e1])
  have n3: "CHR '')'' \<notin> set z" and n4: "CHR '')'' \<notin> set z'"
    using assms(1,2) b b' by (simp_all add: digit_not_paren)
  have "z = z' \<and> '' '' @ st = '' '' @ st'"
    by (rule split_at_unique[OF n3 n4 conjunct2[OF 12]])
  with 12 b b' show ?thesis by simp
next
  case False
  with eq colon_bodyText[OF assms(1,3)] colon_bodyText[OF assms(2,4)]
  have F': "\<not> (\<exists>d h z. b' = DescSig d h z)" by auto
  from tail_status_unique[OF assms(3,4) eq] have t: "bodyText b = bodyText b'" "st = st'"
    by simp_all
  from False F' t(1) assms(1,2) have "sameBody b b'"
    by (cases b; cases b') auto
  with t show ?thesis by simp
qed

lemma render_unique:
  assumes "wf_line p b st" "wf_line p' b' st'" "render p b st = render p' b' st'"
  shows "p' = p \<and> st' = st \<and> sameBody b b'"
proof -
  have e: "p @ CHR '':'' # ('' '' @ bodyText b @ st) = p' @ CHR '':'' # ('' '' @ bodyText b' @ st')"
    using assms(3) by (simp add: render_def)
  have n: "CHR '':'' \<notin> set p" and n': "CHR '':'' \<notin> set p'"
    using assms(1,2) by (simp_all add: wf_line_def)
  have "p = p' \<and> '' '' @ bodyText b @ st = '' '' @ bodyText b' @ st'"
    by (rule split_at_unique[OF n n' e])
  then have "p = p'" "bodyText b @ st = bodyText b' @ st'" by simp_all
  with bodyText_unique[of b b' st st'] assms(1,2) show ?thesis
    by (simp add: wf_line_def)
qed

lemma parseResult_render:
  assumes "wf_line p b st"
  shows "\<exists>b'. wf_body b' \<and> sameBody b b' \<and>
           parseResult (render p b st) =
             Inr \<lparr>Raw = render p b st, Description = descOf b', Path = p, Hash = hashOf b',
                  Size = sizeVal b', Status = st\<rparr>"
proof -
  from FindStringSubmatch_sound[OF FindStringSubmatch_complete[OF assms]]
  obtain p' b' st' where m: "wf_line p' b' st'" "render p b st = render p' b' st'"
    "FindStringSubmatch resultRegex (render p b st) = submatches p' b' st'"
    by blast
  from render_unique[OF assms m(1,2)] have u: "p' = p" "st' = st" "sameBody b b'"
    by simp_all
  from m(1) have wf: "wf_body b'" "st' \<in> statuses" by (simp_all add: wf_line_def)
  from parseResult_submatches[OF wf(2) m(3)] u wf(1) show ?thesis
    by (intro exI[of _ b']) simp
qed

lemma parseResult_total: "\<exists>r. parseResult line = Inr r"
proof (cases "FindStringSubmatch resultRegex line = []")
  case True
  then show ?thesis by (simp add: parseResult_def)
next
  case False
  from FindStringSubmatch_sound[OF False] obtain p b st where
    m: "wf_line p b st" "FindStringSubmatch resultRegex line = submatches p b st" by blast
  from m(1) have "st \<in> statuses" by (simp add: wf_line_def)
  from parseResult_submatches[OF this m(2)] show ?thesis by blast
qed

lemma grammar_iff_regex:
  "FindStringSubmatch resultRegex line \<noteq> [] \<longleftrightarrow> (\<exists>p b st. wf_line p b st \<and> line = render p b st)"
  using FindStringSubmatch_sound FindStringSubmatch_complete by blast

section \<open>Properties of the protocol engine\<close>

lemma be_decode_4: "be_decode [a, b, c, d] =
  ((of_char a * 256 + of_char b) * 256 + of_char c) * 256 + of_char d"
  by (simp add: be_decode_def)

lemma be32_roundtrip:
  fixes n :: nat
  assumes "n < 2 ^ 32"
  shows "(((n div 2 ^ 24) mod 256 * 256 + (n div 2 ^ 16) mod 256) * 256 + (n div 2 ^ 8) mod 256) * 256
           + n mod 256 = n"
proof -
  define a where "a = n div 256"
  define b where "b = a div 256"
  define c where "c = b div 256"
  have 1: "n div 2 ^ 8 = a" "n div 2 ^ 16 = b" "n div 2 ^ 24 = c"
    by (simp_all add: a_def b_def c_def div_mult2_eq)
  have "c < 256" using assms by (simp add: a_def b_def c_def div_mult2_eq)
  then have c: "c mod 256 = c" by simp
  have "c * 256 + b mod 256 = b" unfolding c_def by simp
  moreover have "b * 256 + a mod 256 = a" unfolding b_def by simp
  moreover have "a * 256 + n mod 256 = n" unfolding a_def by simp
  ultimately show ?thesis unfolding 1 c by simp
qed

lemma byte_int_div: "byte (int n div 2 ^ k) = char_of (n div 2 ^ k)"
proof -
  have "int n div 2 ^ k = int (n div 2 ^ k)" by (simp add: zdiv_int)
  then show ?thesis by (simp add: byte_def)
qed

lemma be_decode_frame:
  assumes "n < 2 ^ 32"
  shows "be_decode [byte (int n div 2 ^ 24), byte (int n div 2 ^ 16), byte (int n div 2 ^ 8),
                    byte (int n)] = n"
proof -
  have "byte (int n) = char_of n" by (simp add: byte_def)
  then show ?thesis
    by (simp only: byte_int_div be_decode_4 of_char_of be32_roundtrip[OF assms])
qed

lemma sendChunk_writes:
  "writes (fst (sendChunk conn data)) = writes conn @ frame data"
  by (simp add: sendChunk_def Write_def frame_def Let_def map_nth drop_bit_eq_div split: prod.splits)

lemma HasPrefix_first:
  "HasPrefix s (x # p) \<Longrightarrow> HasPrefix s (y # q) \<Longrightarrow> x = y"
  by (cases s) (auto simp: HasPrefix_def)

lemma Stats_loop_POOLS_fault:
  "Raw s = ''POOLS'' \<Longrightarrow> Stats_loop (s # ch) stats = Inl (SliceBoundsOutOfRange 6 5)"
  by (simp add: HasPrefix_def sliceFrom_def)

lemma Stats_loop_POOLS:
  "HasPrefix (Raw s) ''POOLS'' \<Longrightarrow> 6 \<le> length (Raw s) \<Longrightarrow>
     Stats_loop (s # ch) stats = Stats_loop ch (stats\<lparr>Pools := Trim (drop 6 (Raw s)) '' ''\<rparr>)"
  by (simp add: sliceFrom_def)

lemma Stats_loop_STATE:
  assumes "HasPrefix (Raw s) ''STATE''"
  shows "Stats_loop (s # ch) stats = Stats_loop ch (stats\<lparr>State := Raw s\<rparr>)"
proof -
  have "\<not> HasPrefix (Raw s) ''POOLS''"
    using HasPrefix_first[OF assms, of "CHR ''P''" "''OOLS''"] by auto
  with assms show ?thesis by simp
qed

lemma Stats_loop_THREADS:
  assumes "HasPrefix (Raw s) ''THREADS''"
  shows "Stats_loop (s # ch) stats = Stats_loop ch (stats\<lparr>Threads := Raw s\<rparr>)"
proof -
  have "\<not> HasPrefix (Raw s) ''POOLS''" "\<not> HasPrefix (Raw s) ''STATE''"
    using HasPrefix_first[OF assms, of "CHR ''P''" "''OOLS''"]
      HasPrefix_first[OF assms, of "CHR ''S''" "''TATE''"] by auto
  with assms show ?thesis by simp
qed

lemma Stats_loop_QUEUE:
  assumes "HasPrefix (Raw s) ''QUEUE''"
  shows "Stats_loop (s # ch) stats = Stats_loop ch (stats\<lparr>Queue := Raw s\<rparr>)"
proof -
  have "\<not> HasPrefix (Raw s) ''POOLS''" "\<not> HasPrefix (Raw s) ''STATE''"
    "\<not> HasPrefix (Raw s) ''THREADS''"
    using HasPrefix_first[OF assms, of "CHR ''P''" "''OOLS''"]
      HasPrefix_first[OF assms, of "CHR ''S''" "''TATE''"]
      HasPrefix_first[OF assms, of "CHR ''T''" "''HREADS''"] by auto
  with assms show ?thesis by simp
qed

lemma Stats_loop_MEMSTATS:
  assumes "HasPrefix (Raw s) ''MEMSTATS''"
  shows "Stats_loop (s # ch) stats = Stats_loop ch (stats\<lparr>Memstats := Raw s\<rparr>)"
proof -
  have "\<not> HasPrefix (Raw s) ''POOLS''" "\<not> HasPrefix (Raw s) ''STATE''"
    "\<not> HasPrefix (Raw s) ''THREADS''" "\<not> HasPrefix (Raw s) ''QUEUE''"
    using HasPrefix_first[OF assms, of "CHR ''P''" "''OOLS''"]
      HasPrefix_first[OF assms, of "CHR ''S''" "''TATE''"]
      HasPrefix_first[OF assms, of "CHR ''T''" "''HREADS''"]
      HasPrefix_first[OF assms, of "CHR ''Q''" "''UEUE''"] by auto
  with assms show ?thesis by simp
qed

lemma sendCommand_writes:
  "writes (fst (sendCommand conn cmd)) = writes conn @ [''n'' @ cmd @ [CHR 0x0A]]"
  by (simp add: sendCommand_def Write_def)

lemma sendEOF_writes:
  "writes (fst (sendEOF conn)) = writes conn @ [[CHR 0x00, CHR 0x00, CHR 0x00, CHR 0x00]]"
  by (simp add: sendEOF_def Write_def)

lemma ScanStream_loop_frames:
  "\<exists>ds. writes (fst (ScanStream_loop fuel rd r conn)) = writes conn @ concat (map frame ds) \<and>
        (\<forall>d\<in>set ds. d \<noteq> [] \<and> length d \<le> CHUNK_SIZE)"
proof (induction fuel arbitrary: r conn)
  case 0
  show ?case by (intro exI[of _ "[]"]) simp
next
  case (Suc fuel)
  obtain bs err r' where rd: "io_Read rd r CHUNK_SIZE = ((bs, err), r')"
    by (metis prod.exhaust)
  have len: "length bs \<le> CHUNK_SIZE"
    using rd by (auto simp: io_Read_def split: prod.splits)
  let ?conn1 = "if length bs > 0 then fst (sendChunk conn (take (length bs) bs)) else conn"
  let ?d1 = "if bs = [] then [] else [bs]"
  have w1: "writes ?conn1 = writes conn @ concat (map frame ?d1)"
    by (simp add: sendChunk_writes)
  have step: "ScanStream_loop (Suc fuel) rd r conn =
      (if err \<noteq> None then (?conn1, True) else ScanStream_loop fuel rd r' ?conn1)"
    using rd by (simp add: Let_def)
  show ?case
  proof (cases "err \<noteq> None")
    case True
    with step w1 len show ?thesis
      by (intro exI[of _ ?d1]) simp
  next
    case False
    from Suc.IH[of r' ?conn1] obtain ds where
      ds: "writes (fst (ScanStream_loop fuel rd r' ?conn1)) = writes ?conn1 @ concat (map frame ds)"
          "\<forall>d\<in>set ds. d \<noteq> [] \<and> length d \<le> CHUNK_SIZE"
      by blast
    from False step ds w1 len show ?thesis
      by (intro exI[of _ "?d1 @ ds"]) simp
  qed
qed

lemma take_min_length: "take (min (length s) n) s = take n s"
  by (simp add: min_def)

lemma loop_short_step:
  assumes "s \<noteq> []" "0 < m"
  shows "ScanStream_loop (Suc f) (short_Read m) s conn =
     ScanStream_loop f (short_Read m) (drop (min m CHUNK_SIZE) s)
       (fst (sendChunk conn (take (min m CHUNK_SIZE) s)))"
proof -
  have "min m CHUNK_SIZE \<noteq> 0" using assms(2) by (simp add: CHUNK_SIZE_def min_def)
  with assms(1) show ?thesis
    by (simp add: io_Read_def short_Read_def Let_def take_min_length)
qed

lemma loop_short_eof:
  "ScanStream_loop (Suc f) (short_Read m) [] conn = (conn, True)"
  by (simp add: io_Read_def short_Read_def)

lemma newConnection_example:
  "newConnection (exampleEnv fs resp) \<lparr>address = ''/tmp/clamd.socket''\<rparr> =
     ([(''unix'', ''/tmp/clamd.socket'')], Inr \<lparr>writes = [], faults = fs, incoming = resp\<rparr>)"
proof -
  have "url_Parse (exampleEnv fs resp) ''/tmp/clamd.socket'' =
      Inr \<lparr>Scheme = [], Host = [], url_Path = ''/tmp/clamd.socket''\<rparr>"
    by (simp add: url_Parse_def exampleEnv_def stringContainsCTLByte_def getScheme_def isLetter_def
        isDigit_def ToLower_def)
  then show ?thesis
    by (simp add: newConnection_def newCLAMDUnixConn_def exampleEnv_def)
qed

lemma ScanStream_returns:
  assumes "snd (newConnection e c) = Inr conn"
    and "ScanStream_loop fuel rd r (fst (sendCommand conn ''INSTREAM'')) = (conn2, True)"
  shows "\<exists>res. ScanStream fuel e c rd r = (Some (fst (sendEOF conn2)), Some res)"
  using assms by (auto simp: ScanStream_def Let_def split: prod.splits option.splits sum.splits)

lemma ScanStream_running:
  assumes "snd (newConnection e c) = Inr conn"
    and "ScanStream_loop fuel rd r (fst (sendCommand conn ''INSTREAM'')) = (conn2, False)"
  shows "ScanStream fuel e c rd r = (Some conn2, None)"
  using assms by (simp add: ScanStream_def Let_def)

lemma lastLine_Nil: "lastLine p [] = None"
  by (simp add: lastLine_def)

lemma lastLine_Cons:
  "lastLine p (s # ch) =
     (case lastLine p ch of
        Some t \<Rightarrow> Some t
      | None \<Rightarrow> if HasPrefix (Raw s) p then Some s else None)"
  by (auto simp: lastLine_def split: list.splits)

lemma HasPrefix_POOLS_long:
  assumes "HasPrefix (Raw s) ''POOLS''" "Raw s \<noteq> ''POOLS''"
  shows "6 \<le> length (Raw s)"
proof (rule ccontr)
  assume "\<not> 6 \<le> length (Raw s)"
  with assms(1) have "length (Raw s) = 5" by (simp add: HasPrefix_def)
  with assms(1) have "Raw s = ''POOLS''" by (simp add: HasPrefix_def)
  with assms(2) show False by simp
qed

lemma HasPrefix_distinct:
  "HasPrefix s (x # p) \<Longrightarrow> x \<noteq> y \<Longrightarrow> \<not> HasPrefix s (y # q)"
  using HasPrefix_first by blast

lemma Stats_loop_fault:
  "\<exists>s\<in>set ch. Raw s = ''POOLS'' \<Longrightarrow> Stats_loop ch stats = Inl (SliceBoundsOutOfRange 6 5)"
proof (induction ch arbitrary: stats)
  case Nil
  then show ?case by simp
next
  case (Cons s ch)
  show ?case
  proof (cases "Raw s = ''POOLS''")
    case True
    then show ?thesis by (rule Stats_loop_POOLS_fault)
  next
    case False
    with Cons.prems have rest: "\<exists>s\<in>set ch. Raw s = ''POOLS''" by simp
    have "\<exists>stats'. Stats_loop (s # ch) stats = Stats_loop ch stats'"
    proof (cases "HasPrefix (Raw s) ''POOLS''")
      case True
      from Stats_loop_POOLS[OF True HasPrefix_POOLS_long[OF True False]] show ?thesis by blast
    next
      case False
      then show ?thesis by auto
    qed
    with Cons.IH[OF rest] show ?thesis by auto
  qed
qed

lemma Stats_loop_fields:
  assumes "\<forall>s\<in>set ch. Raw s \<noteq> ''POOLS''"
  shows "Stats_loop ch stats =
     Inr \<lparr>Pools = (case lastLine ''POOLS'' ch of
                     Some s \<Rightarrow> Trim (drop 6 (Raw s)) '' '' | None \<Rightarrow> Pools stats),
          State = (case lastLine ''STATE'' ch of Some s \<Rightarrow> Raw s | None \<Rightarrow> State stats),
          Threads = (case lastLine ''THREADS'' ch of Some s \<Rightarrow> Raw s | None \<Rightarrow> Threads stats),
          Memstats = (case lastLine ''MEMSTATS'' ch of Some s \<Rightarrow> Raw s | None \<Rightarrow> Memstats stats),
          Queue = (case lastLine ''QUEUE'' ch of Some s \<Rightarrow> Raw s | None \<Rightarrow> Queue stats)\<rparr>"
  using assms
proof (induction ch arbitrary: stats)
  case Nil
  show ?case by (simp add: lastLine_Nil)
next
  case (Cons s ch)
  from Cons.prems have rest: "\<forall>s\<in>set ch. Raw s \<noteq> ''POOLS''" and ns: "Raw s \<noteq> ''POOLS''"
    by simp_all
  note IH = Cons.IH[OF rest]
  consider (pools) "HasPrefix (Raw s) ''POOLS''" | (state) "HasPrefix (Raw s) ''STATE''"
    | (threads) "HasPrefix (Raw s) ''THREADS''" | (queue) "HasPrefix (Raw s) ''QUEUE''"
    | (memstats) "HasPrefix (Raw s) ''MEMSTATS''"
    | (other) "\<not> HasPrefix (Raw s) ''POOLS''" "\<not> HasPrefix (Raw s) ''STATE''"
        "\<not> HasPrefix (Raw s) ''THREADS''" "\<not> HasPrefix (Raw s) ''QUEUE''"
        "\<not> HasPrefix (Raw s) ''MEMSTATS''"
    by blast
  then show ?case
  proof cases
    case pools
    have n: "\<not> HasPrefix (Raw s) ''STATE''" "\<not> HasPrefix (Raw s) ''THREADS''"
      "\<not> HasPrefix (Raw s) ''QUEUE''" "\<not> HasPrefix (Raw s) ''MEMSTATS''"
      by (rule HasPrefix_distinct[OF pools], simp)+
    show ?thesis
      unfolding Stats_loop_POOLS[OF pools HasPrefix_POOLS_long[OF pools ns]] IH lastLine_Cons
      using pools n by (simp split: option.split)
  next
    case state
    have n: "\<not> HasPrefix (Raw s) ''POOLS''" "\<not> HasPrefix (Raw s) ''THREADS''"
      "\<not> HasPrefix (Raw s) ''QUEUE''" "\<not> HasPrefix (Raw s) ''MEMSTATS''"
      by (rule HasPrefix_distinct[OF state], simp)+
    show ?thesis
      unfolding Stats_loop_STATE[OF state] IH lastLine_Cons
      using state n by (simp split: option.split)
  next
    case threads
    have n: "\<not> HasPrefix (Raw s) ''POOLS''" "\<not> HasPrefix (Raw s) ''STATE''"
      "\<not> HasPrefix (Raw s) ''QUEUE''" "\<not> HasPrefix (Raw s) ''MEMSTATS''"
      by (rule HasPrefix_distinct[OF threads], simp)+
    show ?thesis
      unfolding Stats_loop_THREADS[OF threads] IH lastLine_Cons
      using threads n by (simp split: option.split)
  next
    case queue
    have n: "\<not> HasPrefix (Raw s) ''POOLS''" "\<not> HasPrefix (Raw s) ''STATE''"
      "\<not> HasPrefix (Raw s) ''THREADS''" "\<not> HasPrefix (Raw s) ''MEMSTATS''"
      by (rule HasPrefix_distinct[OF queue], simp)+
    show ?thesis
      unfolding Stats_loop_QUEUE[OF queue] IH lastLine_Cons
      using queue n by (simp split: option.split)
  next
    case memstats
    have n: "\<not> HasPrefix (Raw s) ''POOLS''" "\<not> HasPrefix (Raw s) ''STATE''"
      "\<not> HasPrefix (Raw s) ''THREADS''" "\<not> HasPrefix (Raw s) ''QUEUE''"
      by (rule HasPrefix_distinct[OF memstats], simp)+
    show ?thesis
      unfolding Stats_loop_MEMSTATS[OF memstats] IH lastLine_Cons
      using memstats n by (simp split: option.split)
  next
    case other
    then have "Stats_loop (s # ch) stats = Stats_loop ch stats" by simp
    then show ?thesis
      unfolding IH lastLine_Cons using other by (simp split: option.split)
  qed
qed

lemma emptyStats_fields:
  "Pools emptyStats = []" "State emptyStats = []" "Threads emptyStats = []"
  "Memstats emptyStats = []" "Queue emptyStats = []"
  by (simp_all add: emptyStats_def)

lemma fills_bytes_Read: "fills bytes_Read (\<lambda>r s. r = s)"
  by (auto simp: fills_def bytes_Read_def)

lemma fills_eager_Read: "fills eager_Read (\<lambda>r s. r = s)"
  by (auto simp: fills_def eager_Read_def)

lemma fills_Read:
  assumes "fills rd holds" "holds r s"
  obtains err r' where "io_Read rd r CHUNK_SIZE = ((take CHUNK_SIZE s, err), r')"
    "holds r' (drop CHUNK_SIZE s)" "err \<noteq> None \<Longrightarrow> length s \<le> CHUNK_SIZE"
    "s = [] \<Longrightarrow> err \<noteq> None"
proof -
  obtain bs err r' where rd: "rd r CHUNK_SIZE = ((bs, err), r')"
    by (metis prod.exhaust)
  have "0 < CHUNK_SIZE" by (simp add: CHUNK_SIZE_def)
  with assms rd have p: "bs = take CHUNK_SIZE s" "holds r' (drop CHUNK_SIZE s)"
    "err \<noteq> None \<longrightarrow> length s \<le> CHUNK_SIZE" "s = [] \<longrightarrow> err \<noteq> None"
    unfolding fills_def by fastforce+
  have "io_Read rd r CHUNK_SIZE = ((take CHUNK_SIZE s, err), r')"
    using rd p(1) by (simp add: io_Read_def)
  with p show ?thesis using that by blast
qed

lemma fills_more:
  assumes "fills rd holds" "holds r s" "CHUNK_SIZE < length s"
  obtains r' where "holds r' (drop CHUNK_SIZE s)"
    "\<And>f conn. ScanStream_loop (Suc f) rd r conn =
        ScanStream_loop f rd r' (fst (sendChunk conn (take CHUNK_SIZE s)))"
proof -
  from fills_Read[OF assms(1,2)] obtain err r' where
    rd: "io_Read rd r CHUNK_SIZE = ((take CHUNK_SIZE s, err), r')"
    and h: "holds r' (drop CHUNK_SIZE s)" and e: "err \<noteq> None \<Longrightarrow> length s \<le> CHUNK_SIZE"
    by blast
  from e assms(3) have "err = None" by fastforce
  moreover have "0 < length (take CHUNK_SIZE s)"
    using assms(3) by (simp add: CHUNK_SIZE_def)
  ultimately have "ScanStream_loop (Suc f) rd r conn =
        ScanStream_loop f rd r' (fst (sendChunk conn (take CHUNK_SIZE s)))" for f conn
    using rd by (simp add: Let_def take_min_length)
  with h show ?thesis using that by blast
qed

lemma fills_last:
  assumes "fills rd holds" "holds r s" "s \<noteq> []" "length s \<le> CHUNK_SIZE"
  shows "ScanStream_loop (Suc (Suc f)) rd r conn = (fst (sendChunk conn s), True)"
proof -
  from fills_Read[OF assms(1,2)] obtain err r' where
    rd: "io_Read rd r CHUNK_SIZE = ((take CHUNK_SIZE s, err), r')"
    and h: "holds r' (drop CHUNK_SIZE s)"
    by blast
  have t: "take CHUNK_SIZE s = s" "drop CHUNK_SIZE s = []" using assms(4) by simp_all
  show ?thesis
  proof (cases "err = None")
    case False
    with rd assms(3) show ?thesis by (simp add: t Let_def take_min_length)
  next
    case True
    from fills_Read[OF assms(1) h] obtain err2 r2 where
      rd2: "io_Read rd r' CHUNK_SIZE = ((take CHUNK_SIZE (drop CHUNK_SIZE s), err2), r2)"
      and e2: "drop CHUNK_SIZE s = [] \<Longrightarrow> err2 \<noteq> None"
      by blast
    from e2 t have "err2 \<noteq> None" by simp
    with rd rd2 True assms(3) show ?thesis by (simp add: t Let_def take_min_length)
  qed
qed

lemma loop_fills_2500:
  assumes "fills rd holds" "holds r data" "length data = 2500"
  shows "ScanStream_loop (Suc (Suc (Suc (Suc k)))) rd r conn =
     (fst (sendChunk (fst (sendChunk (fst (sendChunk conn (take 1024 data)))
             (take 1024 (drop 1024 data)))) (drop 2048 data)), True)"
proof -
  have l1: "CHUNK_SIZE < length data" using assms(3) by (simp add: CHUNK_SIZE_def)
  from fills_more[OF assms(1,2) l1] obtain r1 where
    h1: "holds r1 (drop CHUNK_SIZE data)"
    and s1: "\<And>f conn. ScanStream_loop (Suc f) rd r conn =
        ScanStream_loop f rd r1 (fst (sendChunk conn (take CHUNK_SIZE data)))" by blast
  have l2: "CHUNK_SIZE < length (drop CHUNK_SIZE data)"
    using assms(3) by (simp add: CHUNK_SIZE_def)
  from fills_more[OF assms(1) h1 l2] obtain r2 where
    h2: "holds r2 (drop CHUNK_SIZE (drop CHUNK_SIZE data))"
    and s2: "\<And>f conn. ScanStream_loop (Suc f) rd r1 conn =
        ScanStream_loop f rd r2 (fst (sendChunk conn (take CHUNK_SIZE (drop CHUNK_SIZE data))))"
    by blast
  have l3: "drop CHUNK_SIZE (drop CHUNK_SIZE data) \<noteq> []"
    "length (drop CHUNK_SIZE (drop CHUNK_SIZE data)) \<le> CHUNK_SIZE"
    using assms(3) by (auto simp: CHUNK_SIZE_def)
  note s3 = fills_last[OF assms(1) h2 l3]
  show ?thesis
    unfolding s1 s2 s3 by (simp add: CHUNK_SIZE_def)
qed

section \<open>The response parser\<close>

text \<open>
  Claim C1, as stated, says that a record with status FOUND always has a non-empty
  signature (Hash) field.  The pattern makes the signature group optional,
  so \<^verbatim>\<open>/tmp/file: Eicar-Test-Signature FOUND\<close> is accepted and parsed to status FOUND with
  an empty Hash:
\<close>

theorem c1_counterexample:
  "FindStringSubmatch resultRegex ''/tmp/file: Eicar-Test-Signature FOUND'' \<noteq> [] \<and>
   parseResult ''/tmp/file: Eicar-Test-Signature FOUND'' =
     Inr \<lparr>Raw = ''/tmp/file: Eicar-Test-Signature FOUND'', Description = ''Eicar-Test-Signature'',
          Path = ''/tmp/file'', Hash = [], Size = 0, Status = ''FOUND''\<rparr>"
  by code_simp

text \<open>
  Claim C1, amended: for every line of the grammar whose record has status FOUND, the Hash
  field is non-empty exactly when the line has a signature group \<^verbatim>\<open>(hash:size)\<close>.
\<close>

theorem c1_amended:
  assumes "wf_line p b st" "parseResult (render p b st) = Inr r" "Status r = RES_FOUND"
  shows "Hash r \<noteq> [] \<longleftrightarrow> (\<exists>d h z. b = DescSig d h z)"
proof -
  from parseResult_render[OF assms(1)] assms(2) obtain b' where
    b': "wf_body b'" "sameBody b b'" "Hash r = hashOf b'" by auto
  then show ?thesis by (cases b; cases b') auto
qed

theorem c1_amended_witness:
  "wf_line ''/tmp/file'' (DescSig ''Eicar-Test-Signature'' ''abcd1234'' ''68'') ''FOUND'' \<and>
   parseResult (render ''/tmp/file'' (DescSig ''Eicar-Test-Signature'' ''abcd1234'' ''68'') ''FOUND'') =
     Inr \<lparr>Raw = ''/tmp/file: Eicar-Test-Signature(abcd1234:68) FOUND'',
          Description = ''Eicar-Test-Signature'', Path = ''/tmp/file'', Hash = ''abcd1234'',
          Size = 68, Status = ''FOUND''\<rparr> \<and>
   Hash \<lparr>Raw = ''/tmp/file: Eicar-Test-Signature(abcd1234:68) FOUND'',
          Description = ''Eicar-Test-Signature'', Path = ''/tmp/file'', Hash = ''abcd1234'',
          Size = 68, Status = ''FOUND''\<rparr> \<noteq> []"
proof -
  let ?b = "DescSig ''Eicar-Test-Signature'' ''abcd1234'' ''68''"
  let ?r = "\<lparr>Raw = ''/tmp/file: Eicar-Test-Signature(abcd1234:68) FOUND'',
          Description = ''Eicar-Test-Signature'', Path = ''/tmp/file'', Hash = ''abcd1234'',
          Size = 68, Status = ''FOUND''\<rparr>"
  have h1: "wf_line ''/tmp/file'' ?b ''FOUND''"
    by (simp add: wf_line_def statuses_def RES_FOUND_def isDigit_def)
  have h2: "parseResult (render ''/tmp/file'' ?b ''FOUND'') = Inr ?r"
    by code_simp
  have h3: "Status ?r = RES_FOUND"
    by (simp add: RES_FOUND_def)
  from c1_amended[OF h1 h2 h3] h1 h2 show ?thesis by simp
qed

text \<open>
  Claim C2, as stated, says that a line with status OK or ERROR gives an empty Hash and
  size zero.  The pattern allows the signature group before any of the three status words,
  and the parser copies it whatever the status:
\<close>

theorem c2_counterexample:
  "FindStringSubmatch resultRegex ''/tmp/file: Eicar-Test-Signature(abcd1234:68) OK'' \<noteq> [] \<and>
   parseResult ''/tmp/file: Eicar-Test-Signature(abcd1234:68) OK'' =
     Inr \<lparr>Raw = ''/tmp/file: Eicar-Test-Signature(abcd1234:68) OK'',
          Description = ''Eicar-Test-Signature'', Path = ''/tmp/file'', Hash = ''abcd1234'',
          Size = 68, Status = ''OK''\<rparr>"
  by code_simp

text \<open>
  Claim C2, amended: for every line of the grammar with status token OK or ERROR,
  \<^verbatim>\<open>parseResult\<close> returns a record with that status; when the line has no signature
  group its Hash is empty and its size zero; when it has one, its Hash is not empty and
  its size is the number written in the group if that is at most \<open>maxInt\<close>, and zero
  otherwise.
\<close>

theorem c2_amended:
  assumes "wf_line p b st" "st = RES_OK \<or> st = RES_ERROR"
  shows "\<exists>r. parseResult (render p b st) = Inr r \<and> Status r = st \<and>
           ((\<forall>d h z. b \<noteq> DescSig d h z) \<longrightarrow> Hash r = [] \<and> Size r = 0) \<and>
           (\<forall>d h z. b = DescSig d h z \<longrightarrow>
              Hash r \<noteq> [] \<and> Size r = (if decimal z \<le> maxInt then decimal z else 0))"
proof -
  from parseResult_render[OF assms(1)] obtain b' where
    b': "wf_body b'" "sameBody b b'"
      "parseResult (render p b st) =
         Inr \<lparr>Raw = render p b st, Description = descOf b', Path = p, Hash = hashOf b',
              Size = sizeVal b', Status = st\<rparr>" by blast
  have 1: "(\<forall>d h z. b \<noteq> DescSig d h z) \<longrightarrow> hashOf b' = [] \<and> sizeVal b' = 0"
    using b'(1,2) by (cases b; cases b') (auto simp: sizeVal_simps)
  have 2: "\<forall>d h z. b = DescSig d h z \<longrightarrow>
      hashOf b' \<noteq> [] \<and> sizeVal b' = (if decimal z \<le> maxInt then decimal z else 0)"
  proof (intro allI impI)
    fix d h z assume b: "b = DescSig d h z"
    with b'(2) obtain d' h' where e: "b' = DescSig d' h' z" by (cases b') auto
    with b'(1) have "h' \<noteq> []" "z \<noteq> []" "list_all isDigit z" by simp_all
    then show "hashOf b' \<noteq> [] \<and> sizeVal b' = (if decimal z \<le> maxInt then decimal z else 0)"
      unfolding e by (simp add: sizeVal_simps)
  qed
  from b'(3) 1 2 show ?thesis by simp
qed

theorem c2_amended_witness:
  "wf_line ''/tmp/file'' NoDesc ''OK'' \<and> ''OK'' = RES_OK \<and>
   (\<exists>r. parseResult ''/tmp/file: OK'' = Inr r \<and> Status r = ''OK'' \<and> Hash r = [] \<and> Size r = 0) \<and>
   wf_line ''/tmp/file'' (DescSig ''Big'' ''abcd1234'' ''9223372036854775808'') ''OK'' \<and>
   (\<exists>r. parseResult ''/tmp/file: Big(abcd1234:9223372036854775808) OK'' = Inr r \<and>
        Status r = ''OK'' \<and> Hash r \<noteq> [] \<and> Size r = 0)"
proof -
  have h1: "wf_line ''/tmp/file'' NoDesc ''OK''"
    by (simp add: wf_line_def statuses_def RES_OK_def)
  have h2: "''OK'' = RES_OK"
    by (simp add: RES_OK_def)
  then have h3: "''OK'' = RES_OK \<or> ''OK'' = RES_ERROR" ..
  have h4: "wf_line ''/tmp/file'' (DescSig ''Big'' ''abcd1234'' ''9223372036854775808'') ''OK''"
    by (simp add: wf_line_def statuses_def RES_OK_def isDigit_def)
  have d: "decimal ''9223372036854775808'' = 9223372036854775808"
    by (simp add: decimal_def digitVal_def)
  from c2_amended[OF h1 h3]
  have a: "\<exists>r. parseResult ''/tmp/file: OK'' = Inr r \<and> Status r = ''OK'' \<and> Hash r = [] \<and> Size r = 0"
    by (simp add: render_def)
  from c2_amended[OF h4 h3] d
  have b: "\<exists>r. parseResult ''/tmp/file: Big(abcd1234:9223372036854775808) OK'' = Inr r \<and>
        Status r = ''OK'' \<and> Hash r \<noteq> [] \<and> Size r = 0"
    by (auto simp: render_def sigText_def maxInt_def)
  from h1 h2 h4 a b show ?thesis by blast
qed

text \<open>
  Claim C3: \<^verbatim>\<open>parseResult\<close> is total, it returns a record for every line and never
  faults, and for a line that the pattern does not match the record has status
  PARSE ERROR, the fixed description, the line as raw text and every other field empty or
  zero.
\<close>

theorem c3:
  "(\<exists>r. parseResult line = Inr r) \<and>
   (FindStringSubmatch resultRegex line = [] \<longrightarrow>
      parseResult line =
        Inr \<lparr>Raw = line, Description = ''Regex had no matches'', Path = [], Hash = [],
             Size = 0, Status = RES_PARSE_ERROR\<rparr>)"
  using parseResult_total[of line] by (simp add: parseResult_def emptyResult_def)

theorem c3_witness:
  "FindStringSubmatch resultRegex ''PONG'' = [] \<and>
   parseResult ''PONG'' =
     Inr \<lparr>Raw = ''PONG'', Description = ''Regex had no matches'', Path = [], Hash = [],
          Size = 0, Status = ''PARSE ERROR''\<rparr>"
proof -
  have h: "FindStringSubmatch resultRegex ''PONG'' = []" by code_simp
  with c3[of "''PONG''"] show ?thesis by (simp add: RES_PARSE_ERROR_def)
qed

text \<open>
  Claim C4, as stated, says that a line with a signature group is parsed to status FOUND
  and to the size written in the group.  The status is whichever of the three words the
  line ends with, and a number that does not fit \<^verbatim>\<open>int\<close> makes \<^verbatim>\<open>Atoi\<close> fail, which
  leaves the size zero:
\<close>

theorem c4_counterexample:
  "FindStringSubmatch resultRegex ''/tmp/file: Eicar-Test-Signature(abcd1234:68) ERROR'' \<noteq> [] \<and>
   parseResult ''/tmp/file: Eicar-Test-Signature(abcd1234:68) ERROR'' =
     Inr \<lparr>Raw = ''/tmp/file: Eicar-Test-Signature(abcd1234:68) ERROR'',
          Description = ''Eicar-Test-Signature'', Path = ''/tmp/file'', Hash = ''abcd1234'',
          Size = 68, Status = ''ERROR''\<rparr> \<and>
   FindStringSubmatch resultRegex ''/tmp/file: Big(abcd1234:9223372036854775808) FOUND'' \<noteq> [] \<and>
   parseResult ''/tmp/file: Big(abcd1234:9223372036854775808) FOUND'' =
     Inr \<lparr>Raw = ''/tmp/file: Big(abcd1234:9223372036854775808) FOUND'',
          Description = ''Big'', Path = ''/tmp/file'', Hash = ''abcd1234'',
          Size = 0, Status = ''FOUND''\<rparr>"
  by code_simp

text \<open>
  Claim C4, amended: for every line of the grammar with a signature group,
  \<^verbatim>\<open>parseResult\<close> returns the status word of the line and a size that is the non-negative
  number written in the group when that is at most \<open>maxInt\<close>, and zero otherwise; and the
  line \<^verbatim>\<open>/tmp/file: Eicar-Test-Signature(abcd1234:68) FOUND\<close> gives path \<^verbatim>\<open>/tmp/file\<close>,
  description \<^verbatim>\<open>Eicar-Test-Signature\<close>, hash \<^verbatim>\<open>abcd1234\<close>, size 68 and status FOUND.
\<close>

theorem c4_amended:
  "(wf_line p (DescSig d h z) st \<longrightarrow>
      (\<exists>r. parseResult (render p (DescSig d h z) st) = Inr r \<and> Status r = st \<and>
           Size r = (if decimal z \<le> maxInt then decimal z else 0) \<and> 0 \<le> Size r)) \<and>
   parseResult ''/tmp/file: Eicar-Test-Signature(abcd1234:68) FOUND'' =
     Inr \<lparr>Raw = ''/tmp/file: Eicar-Test-Signature(abcd1234:68) FOUND'',
          Description = ''Eicar-Test-Signature'', Path = ''/tmp/file'', Hash = ''abcd1234'',
          Size = 68, Status = RES_FOUND\<rparr>"
proof (intro conjI impI)
  assume wf: "wf_line p (DescSig d h z) st"
  from parseResult_render[OF wf] obtain b' where
    b': "wf_body b'" "sameBody (DescSig d h z) b'"
      "parseResult (render p (DescSig d h z) st) =
         Inr \<lparr>Raw = render p (DescSig d h z) st, Description = descOf b', Path = p,
              Hash = hashOf b', Size = sizeVal b', Status = st\<rparr>" by blast
  from b'(2) obtain d' h' where b: "b' = DescSig d' h' z" by (cases b') auto
  from wf have z: "z \<noteq> []" "list_all isDigit z" by (simp_all add: wf_line_def)
  have "sizeVal b' = (if decimal z \<le> maxInt then decimal z else 0)"
    unfolding b using z by (rule sizeVal_simps(3))
  moreover have "0 \<le> decimal z" using z(2) by (rule decimal_nonneg)
  ultimately show "\<exists>r. parseResult (render p (DescSig d h z) st) = Inr r \<and> Status r = st \<and>
           Size r = (if decimal z \<le> maxInt then decimal z else 0) \<and> 0 \<le> Size r"
    using b'(3) by simp
next
  show "parseResult ''/tmp/file: Eicar-Test-Signature(abcd1234:68) FOUND'' =
     Inr \<lparr>Raw = ''/tmp/file: Eicar-Test-Signature(abcd1234:68) FOUND'',
          Description = ''Eicar-Test-Signature'', Path = ''/tmp/file'', Hash = ''abcd1234'',
          Size = 68, Status = RES_FOUND\<rparr>"
    by code_simp
qed

theorem c4_amended_witness:
  "wf_line ''/tmp/file'' (DescSig ''Eicar-Test-Signature'' ''abcd1234'' ''68'') ''ERROR'' \<and>
   (\<exists>r. parseResult ''/tmp/file: Eicar-Test-Signature(abcd1234:68) ERROR'' = Inr r \<and>
        Status r = ''ERROR'' \<and> Size r = 68)"
proof -
  have h: "wf_line ''/tmp/file'' (DescSig ''Eicar-Test-Signature'' ''abcd1234'' ''68'') ''ERROR''"
    by (simp add: wf_line_def statuses_def RES_ERROR_def isDigit_def)
  have d: "decimal ''68'' = 68" by (simp add: decimal_def digitVal_def)
  from c4_amended[of "''/tmp/file''" "''Eicar-Test-Signature''" "''abcd1234''" "''68''" "''ERROR''"] h d
  show ?thesis by (auto simp: render_def sigText_def maxInt_def)
qed

section \<open>The transport resolver, the engine and the commands\<close>

text \<open>
  Claim C5, as stated, says that an address on which URL parsing itself fails is still
  dialled as a Unix-domain socket path.  \<^verbatim>\<open>newConnection\<close> returns the error of
  \<^verbatim>\<open>url.Parse\<close> before it dials anything; the address \<^verbatim>\<open>:3310\<close> has a leading colon, which
  \<^verbatim>\<open>getScheme\<close> refuses:
\<close>

theorem c5_counterexample:
  "url_Parse (exampleEnv [] []) '':3310'' = Inl (UrlError ''parse'' '':3310'' ''missing protocol scheme'') \<and>
   newConnection (exampleEnv [] []) \<lparr>address = '':3310''\<rparr> =
     ([], Inl (UrlError ''parse'' '':3310'' ''missing protocol scheme''))"
  by code_simp

text \<open>
  Claim C5, amended: when \<^verbatim>\<open>url.Parse\<close> fails on the address, \<^verbatim>\<open>newConnection\<close> returns
  that error and dials nothing; when it succeeds with a scheme other than \<^verbatim>\<open>tcp\<close> and
  \<^verbatim>\<open>unix\<close>, \<^verbatim>\<open>newConnection\<close> dials the whole address string as a Unix-domain socket
  path, once, and returns what the dial returns.
\<close>

theorem c5_amended:
  "(url_Parse e (address c) = Inl err \<longrightarrow> newConnection e c = ([], Inl err)) \<and>
   (url_Parse e (address c) = Inr u \<and> Scheme u \<noteq> ''tcp'' \<and> Scheme u \<noteq> ''unix'' \<longrightarrow>
      newConnection e c = ([(''unix'', address c)], net_Dial e ''unix'' (address c)))"
  by (auto simp: newConnection_def newCLAMDUnixConn_def split: sum.splits)

theorem c5_amended_witness:
  "url_Parse (exampleEnv [] []) ''/tmp/clamd.socket'' =
     Inr \<lparr>Scheme = [], Host = [], url_Path = ''/tmp/clamd.socket''\<rparr> \<and>
   newConnection (exampleEnv [] []) \<lparr>address = ''/tmp/clamd.socket''\<rparr> =
     ([(''unix'', ''/tmp/clamd.socket'')], Inr \<lparr>writes = [], faults = [], incoming = []\<rparr>) \<and>
   url_Parse (exampleEnv [] []) '':3310'' = Inl (UrlError ''parse'' '':3310'' ''missing protocol scheme'') \<and>
   newConnection (exampleEnv [] []) \<lparr>address = '':3310''\<rparr> =
     ([], Inl (UrlError ''parse'' '':3310'' ''missing protocol scheme''))"
proof -
  let ?e = "exampleEnv [] []"
  have p1: "url_Parse ?e (address \<lparr>address = ''/tmp/clamd.socket''\<rparr>) =
     Inr \<lparr>Scheme = [], Host = [], url_Path = ''/tmp/clamd.socket''\<rparr>"
    by code_simp
  have p2: "url_Parse ?e (address \<lparr>address = '':3310''\<rparr>) =
     Inl (UrlError ''parse'' '':3310'' ''missing protocol scheme'')"
    by code_simp
  have d: "net_Dial ?e ''unix'' ''/tmp/clamd.socket'' = Inr \<lparr>writes = [], faults = [], incoming = []\<rparr>"
    by (simp add: exampleEnv_def)
  from c5_amended[of ?e "\<lparr>address = ''/tmp/clamd.socket''\<rparr>" _ "\<lparr>Scheme = [], Host = [], url_Path = ''/tmp/clamd.socket''\<rparr>"]
       c5_amended[of ?e "\<lparr>address = '':3310''\<rparr>" "UrlError ''parse'' '':3310'' ''missing protocol scheme''"]
       p1 p2 d
  show ?thesis by simp
qed

text \<open>
  Claim C6 says that no write error is dropped.  \<^verbatim>\<open>sendChunk\<close> ignores the result of
  writing the length prefix, and \<^verbatim>\<open>ScanStream\<close> ignores the results of \<^verbatim>\<open>sendCommand\<close>
  and \<^verbatim>\<open>sendChunk\<close>: on a connection whose first write fails and whose later writes
  succeed, \<^verbatim>\<open>sendChunk\<close> returns no error, and \<^verbatim>\<open>ScanStream\<close> goes on to send the
  chunk and the terminator and returns the channel with no error.
\<close>

theorem c6_write_error_dropped:
  "sendChunk \<lparr>writes = [], faults = [Some (NetError ''write: broken pipe'')], incoming = []\<rparr> ''abc'' =
     (\<lparr>writes = [[CHR 0x00, CHR 0x00, CHR 0x00, CHR 0x03], ''abc''], faults = [], incoming = []\<rparr>,
      None) \<and>
   ScanStream 2 (exampleEnv [Some (NetError ''write: broken pipe'')] (''stream: OK'' @ [CHR 0x0A]))
       \<lparr>address = ''/tmp/clamd.socket''\<rparr> bytes_Read ''abc'' =
     (Some \<lparr>writes = [''nINSTREAM'' @ [CHR 0x0A], [CHR 0x00, CHR 0x00, CHR 0x00, CHR 0x03], ''abc'',
                          [CHR 0x00, CHR 0x00, CHR 0x00, CHR 0x00]],
            faults = [], incoming = ''stream: OK'' @ [CHR 0x0A]\<rparr>,
      Some (Inr (Inr [\<lparr>Raw = ''stream: OK'', Description = [], Path = ''stream'', Hash = [],
                       Size = 0, Status = ''OK''\<rparr>])))"
  by code_simp

text \<open>
  Claim C7: for every payload of a length below \<open>2^32\<close>, \<^verbatim>\<open>sendChunk\<close> writes a four-byte
  prefix that decodes, as a big-endian unsigned integer, to the length of the payload, and
  then the payload; \<^verbatim>\<open>sendEOF\<close> writes exactly four zero bytes and nothing else.
\<close>

theorem c7:
  "(length data < 2 ^ 32 \<longrightarrow>
      (\<exists>p. writes (fst (sendChunk conn data)) = writes conn @ [p, data] \<and> length p = 4 \<and>
           be_decode p = length data)) \<and>
   writes (fst (sendEOF conn)) = writes conn @ [[CHR 0x00, CHR 0x00, CHR 0x00, CHR 0x00]]"
proof (intro conjI impI)
  assume n: "length data < 2 ^ 32"
  let ?n = "length data"
  let ?p = "[byte (int ?n div 2 ^ 24), byte (int ?n div 2 ^ 16), byte (int ?n div 2 ^ 8),
            byte (int ?n)]"
  have "be_decode ?p = ?n"
    using n by (rule be_decode_frame)
  then show "\<exists>p. writes (fst (sendChunk conn data)) = writes conn @ [p, data] \<and> length p = 4 \<and>
           be_decode p = length data"
    unfolding sendChunk_writes frame_def Let_def by (intro exI[of _ ?p]) simp
next
  show "writes (fst (sendEOF conn)) = writes conn @ [[CHR 0x00, CHR 0x00, CHR 0x00, CHR 0x00]]"
    by (simp add: sendEOF_def Write_def)
qed

theorem c7_witness:
  "length ''abc'' < (2::nat) ^ 32 \<and>
   writes (fst (sendChunk \<lparr>writes = [], faults = [], incoming = []\<rparr> ''abc'')) =
     [[CHR 0x00, CHR 0x00, CHR 0x00, CHR 0x03], ''abc''] \<and>
   be_decode [CHR 0x00, CHR 0x00, CHR 0x00, CHR 0x03] = length ''abc''"
proof -
  have h: "length ''abc'' < (2::nat) ^ 32" by simp
  have w: "writes (fst (sendChunk \<lparr>writes = [], faults = [], incoming = []\<rparr> ''abc'')) =
     [[CHR 0x00, CHR 0x00, CHR 0x00, CHR 0x03], ''abc'']"
    by code_simp
  from c7[of "''abc''" "\<lparr>writes = [], faults = [], incoming = []\<rparr>"] h w
  show ?thesis by auto
qed

text \<open>
  Claim C9: when the channel of the liveness or of the reload check is closed without a
  record, \<^verbatim>\<open>Ping\<close> and \<^verbatim>\<open>Reload\<close> receive nil and panic on \<^verbatim>\<open>s.Raw\<close> instead of
  returning an error.
\<close>

theorem c9:
  "(simpleCommand e c ''PING'' = Inr (Inr []) \<longrightarrow> Ping e c = Inl NilDereference) \<and>
   (simpleCommand e c ''RELOAD'' = Inr (Inr []) \<longrightarrow> Reload e c = Inl NilDereference)"
  by (simp add: Ping_def Reload_def)

theorem c9_witness:
  "simpleCommand (exampleEnv [] []) \<lparr>address = ''/tmp/clamd.socket''\<rparr> ''PING'' = Inr (Inr []) \<and>
   Ping (exampleEnv [] []) \<lparr>address = ''/tmp/clamd.socket''\<rparr> = Inl NilDereference \<and>
   simpleCommand (exampleEnv [] []) \<lparr>address = ''/tmp/clamd.socket''\<rparr> ''RELOAD'' = Inr (Inr []) \<and>
   Reload (exampleEnv [] []) \<lparr>address = ''/tmp/clamd.socket''\<rparr> = Inl NilDereference"
proof -
  let ?e = "exampleEnv [] []" and ?c = "\<lparr>address = ''/tmp/clamd.socket''\<rparr>"
  have h1: "simpleCommand ?e ?c ''PING'' = Inr (Inr [])" by code_simp
  have h2: "simpleCommand ?e ?c ''RELOAD'' = Inr (Inr [])" by code_simp
  from c9[of ?e ?c] h1 h2 show ?thesis by simp
qed

text \<open>
  Claim C10: in \<^verbatim>\<open>Stats\<close>, a line whose raw text is exactly \<^verbatim>\<open>POOLS\<close> makes
  \<^verbatim>\<open>s.Raw[6:]\<close> panic, slice bounds out of range, wherever it stands in the response; a
  line with that prefix and at least six characters sets \<open>Pools\<close> to what follows the
  first six characters, spaces trimmed; and \<open>State\<close>, \<open>Threads\<close>, \<open>Queue\<close> and
  \<open>Memstats\<close> get the whole raw line, keyword included.  When no line is exactly
  \<^verbatim>\<open>POOLS\<close>, \<^verbatim>\<open>Stats\<close> returns the record in which each field is what the last line with
  the keyword of that field sets it to, and the empty string when there is no such line.
\<close>

theorem c10:
  "(Raw s = ''POOLS'' \<longrightarrow> Stats_loop (s # ch) stats = Inl (SliceBoundsOutOfRange 6 5)) \<and>
   (simpleCommand e c ''STATS'' = Inr (Inr (s # ch)) \<and> Raw s = ''POOLS'' \<longrightarrow>
      Stats e c = Inl (SliceBoundsOutOfRange 6 5)) \<and>
   (HasPrefix (Raw s) ''POOLS'' \<and> 6 \<le> length (Raw s) \<longrightarrow>
      Stats_loop (s # ch) stats = Stats_loop ch (stats\<lparr>Pools := Trim (drop 6 (Raw s)) '' ''\<rparr>)) \<and>
   (HasPrefix (Raw s) ''STATE'' \<longrightarrow>
      Stats_loop (s # ch) stats = Stats_loop ch (stats\<lparr>State := Raw s\<rparr>)) \<and>
   (HasPrefix (Raw s) ''THREADS'' \<longrightarrow>
      Stats_loop (s # ch) stats = Stats_loop ch (stats\<lparr>Threads := Raw s\<rparr>)) \<and>
   (HasPrefix (Raw s) ''QUEUE'' \<longrightarrow>
      Stats_loop (s # ch) stats = Stats_loop ch (stats\<lparr>Queue := Raw s\<rparr>)) \<and>
   (HasPrefix (Raw s) ''MEMSTATS'' \<longrightarrow>
      Stats_loop (s # ch) stats = Stats_loop ch (stats\<lparr>Memstats := Raw s\<rparr>)) \<and>
   (simpleCommand e c ''STATS'' = Inr (Inr rs) \<and> (\<exists>s\<in>set rs. Raw s = ''POOLS'') \<longrightarrow>
      Stats e c = Inl (SliceBoundsOutOfRange 6 5)) \<and>
   (simpleCommand e c ''STATS'' = Inr (Inr rs) \<and> (\<forall>s\<in>set rs. Raw s \<noteq> ''POOLS'') \<longrightarrow>
      Stats e c =
        Inr (Inr \<lparr>Pools = (case lastLine ''POOLS'' rs of
                               Some s \<Rightarrow> Trim (drop 6 (Raw s)) '' '' | None \<Rightarrow> []),
                  State = (case lastLine ''STATE'' rs of Some s \<Rightarrow> Raw s | None \<Rightarrow> []),
                  Threads = (case lastLine ''THREADS'' rs of Some s \<Rightarrow> Raw s | None \<Rightarrow> []),
                  Memstats = (case lastLine ''MEMSTATS'' rs of Some s \<Rightarrow> Raw s | None \<Rightarrow> []),
                  Queue = (case lastLine ''QUEUE'' rs of Some s \<Rightarrow> Raw s | None \<Rightarrow> [])\<rparr>))"
proof (intro conjI impI)
  show "Stats e c = Inl (SliceBoundsOutOfRange 6 5)"
    if "simpleCommand e c ''STATS'' = Inr (Inr (s # ch)) \<and> Raw s = ''POOLS''"
    using that Stats_loop_POOLS_fault[of s ch emptyStats] by (simp add: Stats_def)
  show "Stats e c = Inl (SliceBoundsOutOfRange 6 5)"
    if "simpleCommand e c ''STATS'' = Inr (Inr rs) \<and> (\<exists>s\<in>set rs. Raw s = ''POOLS'')"
    using that Stats_loop_fault[of rs emptyStats] by (simp add: Stats_def)
  show "Stats e c =
        Inr (Inr \<lparr>Pools = (case lastLine ''POOLS'' rs of
                               Some s \<Rightarrow> Trim (drop 6 (Raw s)) '' '' | None \<Rightarrow> []),
                  State = (case lastLine ''STATE'' rs of Some s \<Rightarrow> Raw s | None \<Rightarrow> []),
                  Threads = (case lastLine ''THREADS'' rs of Some s \<Rightarrow> Raw s | None \<Rightarrow> []),
                  Memstats = (case lastLine ''MEMSTATS'' rs of Some s \<Rightarrow> Raw s | None \<Rightarrow> []),
                  Queue = (case lastLine ''QUEUE'' rs of Some s \<Rightarrow> Raw s | None \<Rightarrow> [])\<rparr>)"
    if "simpleCommand e c ''STATS'' = Inr (Inr rs) \<and> (\<forall>s\<in>set rs. Raw s \<noteq> ''POOLS'')"
    using that Stats_loop_fields[of rs emptyStats, unfolded emptyStats_fields]
    by (simp add: Stats_def)
qed (simp_all only: Stats_loop_POOLS_fault Stats_loop_POOLS Stats_loop_STATE Stats_loop_THREADS
       Stats_loop_QUEUE Stats_loop_MEMSTATS)


theorem c10_witness:
  "simpleCommand (exampleEnv [] (''POOLS '' @ [CHR 0x0A])) \<lparr>address = ''/tmp/clamd.socket''\<rparr> ''STATS'' =
     Inr (Inr [\<lparr>Raw = ''POOLS'', Description = ''Regex had no matches'', Path = [], Hash = [],
                Size = 0, Status = ''PARSE ERROR''\<rparr>]) \<and>
   Stats (exampleEnv [] (''POOLS '' @ [CHR 0x0A])) \<lparr>address = ''/tmp/clamd.socket''\<rparr> =
     Inl (SliceBoundsOutOfRange 6 5) \<and>
   Stats (exampleEnv [] statsResponse) \<lparr>address = ''/tmp/clamd.socket''\<rparr> =
     Inr (Inr \<lparr>Pools = ''1'', State = ''STATE: VALID PRIMARY'',
          Threads = ''THREADS: live 1  idle 0 max 12 idle-timeout 30'',
          Memstats = ''MEMSTATS: heap 3.656M'', Queue = ''QUEUE: 0 items''\<rparr>)"
proof -
  let ?e = "exampleEnv [] (''POOLS '' @ [CHR 0x0A])" and ?c = "\<lparr>address = ''/tmp/clamd.socket''\<rparr>"
  let ?s = "\<lparr>Raw = ''POOLS'', Description = ''Regex had no matches'', Path = [], Hash = [],
                Size = 0, Status = ''PARSE ERROR''\<rparr>"
  let ?pe = "\<lambda>l. \<lparr>Raw = l, Description = ''Regex had no matches'', Path = [], Hash = [],
                Size = 0, Status = ''PARSE ERROR''\<rparr>"
  let ?rs = "[?pe ''POOLS: 1'', ?pe ''STATE: VALID PRIMARY'',
              ?pe ''THREADS: live 1  idle 0 max 12 idle-timeout 30'', ?pe ''QUEUE: 0 items'',
              ?pe ''MEMSTATS: heap 3.656M'', ?pe ''END'']"
  have h: "simpleCommand ?e ?c ''STATS'' = Inr (Inr [?s])" by code_simp
  have r: "Raw ?s = ''POOLS''" by simp
  from c10[of ?s "[]" _ ?e ?c] h r
  have 1: "Stats ?e ?c = Inl (SliceBoundsOutOfRange 6 5)" by simp
  have h2: "simpleCommand (exampleEnv [] statsResponse) ?c ''STATS'' = Inr (Inr ?rs)"
    by code_simp
  have n: "\<forall>s\<in>set ?rs. Raw s \<noteq> ''POOLS''" by simp
  have t: "Trim '' 1'' '' '' = ''1''" by (simp add: Trim_def TrimRight_def)
  have l: "lastLine ''POOLS'' ?rs = Some (?pe ''POOLS: 1'')"
    "lastLine ''STATE'' ?rs = Some (?pe ''STATE: VALID PRIMARY'')"
    "lastLine ''THREADS'' ?rs = Some (?pe ''THREADS: live 1  idle 0 max 12 idle-timeout 30'')"
    "lastLine ''MEMSTATS'' ?rs = Some (?pe ''MEMSTATS: heap 3.656M'')"
    "lastLine ''QUEUE'' ?rs = Some (?pe ''QUEUE: 0 items'')"
    by (simp_all add: lastLine_def HasPrefix_def)
  from c10[where e="exampleEnv [] statsResponse" and c="?c" and rs="?rs"] h2 n
  have 2: "Stats (exampleEnv [] statsResponse) ?c =
     Inr (Inr \<lparr>Pools = ''1'', State = ''STATE: VALID PRIMARY'',
          Threads = ''THREADS: live 1  idle 0 max 12 idle-timeout 30'',
          Memstats = ''MEMSTATS: heap 3.656M'', Queue = ''QUEUE: 0 items''\<rparr>)"
    unfolding l using t by simp
  from h 1 2 show ?thesis by simp
qed

text \<open>
  Claim C8, as stated, says that a 2500-byte source always goes out as frames of 1024,
  1024 and 452 bytes.  \<^verbatim>\<open>ScanStream\<close> sends what each \<^verbatim>\<open>Read\<close> returns, and a \<^verbatim>\<open>Read\<close>
  may return less than the buffer holds: a source of 2500 bytes that hands over 1000 bytes
  at a time goes out as frames of 1000, 1000 and 500 bytes (after the 10 bytes of the
  command, each frame is a write of 4 bytes and a write of the data; the last write is the
  terminator).
\<close>

theorem c8_counterexample:
  "map_option writeSizes
     (fst (ScanStream 4 (exampleEnv [] []) \<lparr>address = ''/tmp/clamd.socket''\<rparr>
             (short_Read 1000) (replicate 2500 CHR ''a''))) =
     Some [10, 4, 1000, 4, 1000, 4, 500, 4]"
proof -
  let ?e = "exampleEnv [] []" and ?c = "\<lparr>address = ''/tmp/clamd.socket''\<rparr>"
  let ?conn = "\<lparr>writes = [], faults = [], incoming = []\<rparr>"
  let ?c1 = "fst (sendCommand ?conn ''INSTREAM'')"
  let ?c4 = "fst (sendChunk (fst (sendChunk (fst (sendChunk ?c1 (replicate 1000 CHR ''a'')))
                 (replicate 1000 CHR ''a''))) (replicate 500 CHR ''a''))"
  have nc: "snd (newConnection ?e ?c) = Inr ?conn"
    by (simp add: newConnection_example)
  have four: "(4::nat) = Suc (Suc (Suc (Suc 0)))" by simp
  have loop: "ScanStream_loop 4 (short_Read 1000) (replicate 2500 CHR ''a'') ?c1 = (?c4, True)"
    unfolding four
    by (simp add: loop_short_step loop_short_eof CHUNK_SIZE_def del: ScanStream_loop.simps)
  from ScanStream_returns[OF nc loop] obtain res where
    "ScanStream 4 ?e ?c (short_Read 1000) (replicate 2500 CHR ''a'') =
       (Some (fst (sendEOF ?c4)), Some res)" by blast
  then show ?thesis
    by (simp add: writeSizes_def sendEOF_writes sendChunk_writes sendCommand_writes frame_def Let_def)
qed

text \<open>
  Claim C8, amended: for a 2500-byte source whose every \<^verbatim>\<open>Read\<close> fills the 1024-byte
  buffer as far as the data goes and which reports the end of the data, with the last
  bytes or at the \<^verbatim>\<open>Read\<close> after them (\<^verbatim>\<open>bytes.Reader\<close> is one), \<^verbatim>\<open>ScanStream\<close> returns,
  and it has written exactly three data frames, of 1024, 1024 and 452 bytes in that order,
  and then the zero-length terminator frame; and for any source, whatever its reads return
  and however far the loop has come, every data frame written after the command carries
  at least one byte, and the terminator follows them once the loop has ended.
\<close>

theorem c8_amended:
  "(fills rd holds \<and> holds r data \<and> snd (newConnection e c) = Inr conn \<and> length data = 2500 \<and>
    4 \<le> fuel \<longrightarrow>
      (\<exists>conn' res. ScanStream fuel e c rd r = (Some conn', Some res) \<and>
         writes conn' = writes conn @ [''nINSTREAM'' @ [CHR 0x0A]] @ frame (take 1024 data) @
           frame (take 1024 (drop 1024 data)) @ frame (drop 2048 data) @
           [[CHR 0x00, CHR 0x00, CHR 0x00, CHR 0x00]] \<and>
         length (take 1024 data) = 1024 \<and> length (take 1024 (drop 1024 data)) = 1024 \<and>
         length (drop 2048 data) = 452)) \<and>
   (snd (newConnection e c) = Inr conn \<and> fst (ScanStream fuel e c rd' r') = Some conn' \<longrightarrow>
      (\<exists>ds. writes conn' = writes conn @ [''nINSTREAM'' @ [CHR 0x0A]] @ concat (map frame ds) @
              (if snd (ScanStream fuel e c rd' r') = None then []
               else [[CHR 0x00, CHR 0x00, CHR 0x00, CHR 0x00]]) \<and>
            (\<forall>d\<in>set ds. d \<noteq> [])))"
proof (intro conjI impI)
  assume a: "fills rd holds \<and> holds r data \<and> snd (newConnection e c) = Inr conn \<and>
    length data = 2500 \<and> 4 \<le> fuel"
  then obtain j where "fuel = 4 + j"
    using le_Suc_ex by blast
  then have k: "fuel = Suc (Suc (Suc (Suc j)))" by simp
  let ?c1 = "fst (sendCommand conn ''INSTREAM'')"
  let ?c4 = "fst (sendChunk (fst (sendChunk (fst (sendChunk ?c1 (take 1024 data)))
             (take 1024 (drop 1024 data)))) (drop 2048 data))"
  from a have nc: "snd (newConnection e c) = Inr conn" and len: "length data = 2500"
    and f: "fills rd holds" and h: "holds r data"
    by simp_all
  have loop: "ScanStream_loop fuel rd r ?c1 = (?c4, True)"
    unfolding k using f h len by (rule loop_fills_2500)
  from ScanStream_returns[OF nc loop] obtain res where
    "ScanStream fuel e c rd r = (Some (fst (sendEOF ?c4)), Some res)" by blast
  moreover have "writes (fst (sendEOF ?c4)) =
      writes conn @ [''nINSTREAM'' @ [CHR 0x0A]] @ frame (take 1024 data) @
           frame (take 1024 (drop 1024 data)) @ frame (drop 2048 data) @
           [[CHR 0x00, CHR 0x00, CHR 0x00, CHR 0x00]]"
    by (simp add: sendEOF_writes sendChunk_writes sendCommand_writes)
  ultimately show "\<exists>conn' res. ScanStream fuel e c rd r = (Some conn', Some res) \<and>
         writes conn' = writes conn @ [''nINSTREAM'' @ [CHR 0x0A]] @ frame (take 1024 data) @
           frame (take 1024 (drop 1024 data)) @ frame (drop 2048 data) @
           [[CHR 0x00, CHR 0x00, CHR 0x00, CHR 0x00]] \<and>
         length (take 1024 data) = 1024 \<and> length (take 1024 (drop 1024 data)) = 1024 \<and>
         length (drop 2048 data) = 452"
    using len by simp
next
  assume a: "snd (newConnection e c) = Inr conn \<and> fst (ScanStream fuel e c rd' r') = Some conn'"
  then have nc: "snd (newConnection e c) = Inr conn" by simp
  let ?c1 = "fst (sendCommand conn ''INSTREAM'')"
  obtain conn2 b where loop: "ScanStream_loop fuel rd' r' ?c1 = (conn2, b)"
    by (metis prod.exhaust)
  from ScanStream_loop_frames[of fuel rd' r' ?c1] loop obtain ds where
    ds: "writes conn2 = writes ?c1 @ concat (map frame ds)" "\<forall>d\<in>set ds. d \<noteq> []"
    by auto
  show "\<exists>ds. writes conn' = writes conn @ [''nINSTREAM'' @ [CHR 0x0A]] @ concat (map frame ds) @
              (if snd (ScanStream fuel e c rd' r') = None then []
               else [[CHR 0x00, CHR 0x00, CHR 0x00, CHR 0x00]]) \<and>
            (\<forall>d\<in>set ds. d \<noteq> [])"
  proof (cases b)
    case True
    with loop have loop': "ScanStream_loop fuel rd' r' ?c1 = (conn2, True)" by simp
    from ScanStream_returns[OF nc loop'] obtain res where
      "ScanStream fuel e c rd' r' = (Some (fst (sendEOF conn2)), Some res)" by blast
    with a ds show ?thesis
      by (intro exI[of _ ds]) (auto simp: sendEOF_writes sendCommand_writes)
  next
    case False
    with loop have loop': "ScanStream_loop fuel rd' r' ?c1 = (conn2, False)" by simp
    from ScanStream_running[OF nc loop'] a ds show ?thesis
      by (intro exI[of _ ds]) (auto simp: sendCommand_writes)
  qed
qed


theorem c8_amended_witness:
  "fills bytes_Read (\<lambda>r s. r = s) \<and> fills eager_Read (\<lambda>r s. r = s) \<and>
   snd (newConnection (exampleEnv [] []) \<lparr>address = ''/tmp/clamd.socket''\<rparr>) =
     Inr \<lparr>writes = [], faults = [], incoming = []\<rparr> \<and>
   length (replicate 2500 CHR ''a'') = 2500 \<and>
   map_option writeSizes
     (fst (ScanStream 4 (exampleEnv [] []) \<lparr>address = ''/tmp/clamd.socket''\<rparr>
             bytes_Read (replicate 2500 CHR ''a''))) =
     Some [10, 4, 1024, 4, 1024, 4, 452, 4] \<and>
   map_option writeSizes
     (fst (ScanStream 4 (exampleEnv [] []) \<lparr>address = ''/tmp/clamd.socket''\<rparr>
             eager_Read (replicate 2500 CHR ''a''))) =
     Some [10, 4, 1024, 4, 1024, 4, 452, 4]"
proof -
  let ?e = "exampleEnv [] []" and ?c = "\<lparr>address = ''/tmp/clamd.socket''\<rparr>"
  let ?conn = "\<lparr>writes = [], faults = [], incoming = []\<rparr>"
  let ?data = "replicate 2500 CHR ''a''"
  let ?w = "writes ?conn @ [''nINSTREAM'' @ [CHR 0x0A]] @ frame (take 1024 ?data) @
           frame (take 1024 (drop 1024 ?data)) @ frame (drop 2048 ?data) @
           [[CHR 0x00, CHR 0x00, CHR 0x00, CHR 0x00]]"
  have nc: "snd (newConnection ?e ?c) = Inr ?conn"
    by (simp add: newConnection_example)
  have len: "length ?data = 2500" by simp
  have sz: "map length ?w = [10, 4, 1024, 4, 1024, 4, 452, 4]"
    by (simp add: frame_def Let_def)
  from c8_amended[where rd=bytes_Read and holds="\<lambda>r s. r = s" and r="?data" and data="?data"
        and e="?e" and c="?c" and conn="?conn" and fuel=4, THEN conjunct1]
    fills_bytes_Read nc len
  obtain conn1 res1 where
    r1: "ScanStream 4 ?e ?c bytes_Read ?data = (Some conn1, Some res1)" "writes conn1 = ?w"
    by auto
  from c8_amended[where rd=eager_Read and holds="\<lambda>r s. r = s" and r="?data" and data="?data"
        and e="?e" and c="?c" and conn="?conn" and fuel=4, THEN conjunct1]
    fills_eager_Read nc len
  obtain conn2 res2 where
    r2: "ScanStream 4 ?e ?c eager_Read ?data = (Some conn2, Some res2)" "writes conn2 = ?w"
    by auto
  from r1 sz have 1: "map_option writeSizes (fst (ScanStream 4 ?e ?c bytes_Read ?data)) =
      Some [10, 4, 1024, 4, 1024, 4, 452, 4]"
    by (simp only: fst_conv option.map writeSizes_def)
  from r2 sz have 2: "map_option writeSizes (fst (ScanStream 4 ?e ?c eager_Read ?data)) =
      Some [10, 4, 1024, 4, 1024, 4, 452, 4]"
    by (simp only: fst_conv option.map writeSizes_def)
  from fills_bytes_Read fills_eager_Read nc len 1 2 show ?thesis by blast
qed

end
